theory Spec2Isabelle
  imports Main "HOL-Library.Word"
begin

unbundle bit_operations_syntax

section \<open>Data model (types file of package bert)\<close>

type_synonym byte = "8 word"

text \<open>A Go \<^verbatim>\<open>string\<close> is a sequence of bytes.\<close>
type_synonym gostring = "byte list"

text \<open>A \<^verbatim>\<open>float32\<close> is carried as its IEEE-754 bit pattern; its decimal formatting
  (\<^verbatim>\<open>fmt.Sprintf\<close>) and parsing (\<^verbatim>\<open>strconv.ParseFloat\<close>) are library code and enter
  the encoder and the decoder as parameters.\<close>
type_synonym float32 = "32 word"

text \<open>The wire tags are untyped Go constants.\<close>

abbreviation (input) VersionTag :: "'a::numeral" where "VersionTag \<equiv> 131"
abbreviation (input) SmallIntTag :: "'a::numeral" where "SmallIntTag \<equiv> 97"
abbreviation (input) IntTag :: "'a::numeral" where "IntTag \<equiv> 98"
abbreviation (input) SmallBignumTag :: "'a::numeral" where "SmallBignumTag \<equiv> 110"
abbreviation (input) LargeBignumTag :: "'a::numeral" where "LargeBignumTag \<equiv> 111"
abbreviation (input) FloatTag :: "'a::numeral" where "FloatTag \<equiv> 99"
abbreviation (input) AtomTag :: "'a::numeral" where "AtomTag \<equiv> 100"
abbreviation (input) SmallTupleTag :: "'a::numeral" where "SmallTupleTag \<equiv> 104"
abbreviation (input) LargeTupleTag :: "'a::numeral" where "LargeTupleTag \<equiv> 105"
abbreviation (input) NilTag :: "'a::numeral" where "NilTag \<equiv> 106"
abbreviation (input) StringTag :: "'a::numeral" where "StringTag \<equiv> 107"
abbreviation (input) ListTag :: "'a::numeral" where "ListTag \<equiv> 108"
abbreviation (input) BinTag :: "'a::numeral" where "BinTag \<equiv> 109"
abbreviation (input) BitTag :: "'a::numeral" where "BitTag \<equiv> 77"

text \<open>
  The dynamic values the codec handles (\<^verbatim>\<open>Term\<close> is \<^verbatim>\<open>interface{}\<close>), one constructor per
  runtime shape that \<^verbatim>\<open>writeTag\<close> tells apart or that the decoder builds:
  \<^item> \<open>VNil\<close>: the nil interface (an invalid \<^verbatim>\<open>reflect.Value\<close>);
  \<^item> \<open>VBool\<close>: a Go \<^verbatim>\<open>bool\<close> (built by \<^verbatim>\<open>readComplex\<close>);
  \<^item> \<open>VInt\<close>: the kinds Int, Int8, Int16, Int32, Int64, read through \<^verbatim>\<open>v.Int()\<close> as an int64;
  \<^item> \<open>VUint\<close>: the kinds Uint, Uint8, Uint16, Uint32, Uint64, read through \<^verbatim>\<open>v.Uint()\<close>;
  \<^item> \<open>VFloat\<close>: the kinds Float32 and Float64, after the narrowing \<^verbatim>\<open>float32(v.Float())\<close>;
  \<^item> \<open>VAtom\<close>: a string of the named type \<^verbatim>\<open>Atom\<close>; \<open>VString\<close>: any other string;
  \<^item> \<open>VBytes\<close>: a \<^verbatim>\<open>[]byte\<close>; \<open>VSlice\<close>: any other slice (\<^verbatim>\<open>[]Term\<close>); \<open>VArray\<close>: an array;
  \<^item> \<open>VBitstring\<close>: the struct \<^verbatim>\<open>Bitstring{Bytes, Bits}\<close>; \<open>VList\<close>: the struct \<^verbatim>\<open>List{Items}\<close>;
  \<^item> \<open>VBigInt\<close>: a \<^verbatim>\<open>big.Int\<close>; \<open>VRequest\<close>: the struct \<^verbatim>\<open>Request\<close>, by its four fields;
  \<^item> \<open>VPtr\<close>: a pointer (\<open>None\<close> is the nil pointer);
  \<^item> \<open>VOther\<close>: a value of any other kind (map, chan, func, complex, another struct).
  An interface wrapper around an element is transparent. A slice is its elements: its
  capacity is its length, as for a slice literal.
\<close>

datatype val =
    VNil
  | VBool bool
  | VInt "64 word"
  | VUint "64 word"
  | VFloat float32
  | VAtom gostring
  | VString gostring
  | VBytes "byte list"
  | VSlice "val list"
  | VArray "val list"
  | VBitstring "byte list" byte
  | VList "val list"
  | VBigInt int
  | VRequest gostring gostring gostring "val list"
  | VPtr "val option"
  | VOther

definition BertAtom :: gostring where "BertAtom = [98, 101, 114, 116]"
definition NilAtom :: gostring where "NilAtom = [110, 105, 108]"
definition TrueAtom :: gostring where "TrueAtom = [116, 114, 117, 101]"
definition FalseAtom :: gostring where "FalseAtom = [102, 97, 108, 115, 101]"

record Request =
  Kind :: gostring
  Module :: gostring
  Function :: gostring
  Arguments :: "val list"

datatype error = ErrBadMagic | ErrUnknownType | ErrUintType | ErrSyntax

text \<open>What a call does: it returns, or it panics (a Go run-time panic: an index or a slice
  bound out of range, a \<^verbatim>\<open>reflect\<close> call on the wrong kind). \<open>Exhausted\<close> is the
  decoder's model running out of recursion depth; \<^verbatim>\<open>DecodeFrom\<close> starts it with enough.\<close>

datatype 'a outcome = Returns 'a | Panics | Exhausted

section \<open>Encoder (encode.go)\<close>

text \<open>The \<^verbatim>\<open>io.Writer\<close> is the sequence of bytes written so far; every write appends and
  none fails (a \<^verbatim>\<open>bytes.Buffer\<close>).\<close>
type_synonym writer = "byte list"

definition write1 :: "writer \<Rightarrow> byte \<Rightarrow> writer" where
  "write1 w ui8 = w @ [ui8]"

definition write2 :: "writer \<Rightarrow> 16 word \<Rightarrow> writer" where
  "write2 w ui16 = w @ [ucast (drop_bit 8 ui16), ucast ui16]"

definition write4 :: "writer \<Rightarrow> 32 word \<Rightarrow> writer" where
  "write4 w ui32 =
     w @ [ucast (drop_bit 24 ui32), ucast (drop_bit 16 ui32), ucast (drop_bit 8 ui32), ucast ui32]"

definition writeSmallInt :: "writer \<Rightarrow> byte \<Rightarrow> writer" where
  "writeSmallInt w n = write1 (write1 w SmallIntTag) n"

definition writeInt :: "writer \<Rightarrow> 32 word \<Rightarrow> writer" where
  "writeInt w n = write4 (write1 w IntTag) n"

text \<open>\<^verbatim>\<open>big.Int\<close>: an unbounded integer. \<^verbatim>\<open>n.Bytes()\<close> is the absolute value in big-endian
  bytes without leading zeros (empty for 0); \<open>le_bytes\<close> lists the same digits least
  significant first.\<close>

function le_bytes :: "int \<Rightarrow> byte list" where
  "le_bytes n = (if n \<le> 0 then [] else of_int (n mod 256) # le_bytes (n div 256))"
  by pat_completeness auto
termination
  by (relation "measure nat") auto

declare le_bytes.simps [simp del]

definition big_Bytes :: "int \<Rightarrow> byte list" where
  "big_Bytes n = rev (le_bytes \<bar>n\<bar>)"

definition IsInt64 :: "int \<Rightarrow> bool" where
  "IsInt64 n \<longleftrightarrow> - (2 ^ 63) \<le> n \<and> n < 2 ^ 63"

text \<open>The two-index swap loop of \<^verbatim>\<open>writeNumber\<close> reverses \<^verbatim>\<open>bytes\<close> in place: \<open>rev\<close>.\<close>

definition writeNumber :: "writer \<Rightarrow> int \<Rightarrow> writer" where
  "writeNumber w n =
     (if IsInt64 n \<and> n \<ge> 0 \<and> n < 256 then writeSmallInt w (of_int n)
      else if IsInt64 n \<and> n \<ge> -2147483648 \<and> n \<le> 2147483647 then writeInt w (of_int n)
      else
        let w1 = write1 w SmallBignumTag;
            bytes = rev (big_Bytes n);
            w2 = write1 w1 (of_nat (length bytes));
            w3 = (if sgn n > -1 then write1 w2 0 else write1 w2 1)
        in w3 @ bytes)"

text \<open>\<open>sprintf\<close> stands for \<^verbatim>\<open>fmt.Sprintf("%.20e", _)\<close>. \<^verbatim>\<open>make([]byte, 31-len(s))\<close> panics
  on a negative length.\<close>

definition writeFloat :: "(float32 \<Rightarrow> byte list) \<Rightarrow> writer \<Rightarrow> float32 \<Rightarrow> writer outcome" where
  "writeFloat sprintf w f =
     (let w1 = write1 w FloatTag;
          s = sprintf f;
          w2 = w1 @ s
      in if 31 < length s then Panics else Returns (w2 @ replicate (31 - length s) 0))"

definition writeAtom :: "writer \<Rightarrow> gostring \<Rightarrow> writer" where
  "writeAtom w a = write2 (write1 w AtomTag) (of_nat (length a)) @ a"

definition writeBinary :: "writer \<Rightarrow> byte list \<Rightarrow> writer" where
  "writeBinary w a = write4 (write1 w BinTag) (of_nat (length a)) @ a"

text \<open>The loop \<^verbatim>\<open>for len(a) < size { a = append([]byte{0}, a...) }\<close>.\<close>

function padFront :: "nat \<Rightarrow> byte list \<Rightarrow> byte list" where
  "padFront sz a = (if length a < sz then padFront sz (0 # a) else a)"
  by pat_completeness auto
termination
  by (relation "measure (\<lambda>(sz, a). sz - length a)") auto

declare padFront.simps [simp del]

definition writeBitstring :: "writer \<Rightarrow> byte list \<Rightarrow> byte \<Rightarrow> writer" where
  "writeBitstring w a bits =
     (let w1 = write1 w BitTag;
          sz = (unat bits + 7) div 8;
          w2 = write4 w1 (of_nat sz);
          w3 = write1 w2 (bits mod 8);
          a' = padFront sz a
      in w3 @ take sz a')"

definition writeNil :: "writer \<Rightarrow> writer" where
  "writeNil w = write1 w NilTag"

definition writeString :: "writer \<Rightarrow> gostring \<Rightarrow> writer" where
  "writeString w s = write2 (write1 w StringTag) (of_nat (length s)) @ s"

text \<open>\<^verbatim>\<open>reflect.Indirect\<close>: one pointer is followed; a nil pointer gives the invalid value.
  In \<open>writeKind\<close> a value that is still a pointer falls to the \<^verbatim>\<open>default\<close> case, whose second
  \<^verbatim>\<open>reflect.Indirect\<close> is invalid exactly for the nil pointer.\<close>

fun Indirect :: "val \<Rightarrow> val" where
  "Indirect (VPtr None) = VNil"
| "Indirect (VPtr (Some v)) = v"
| "Indirect v = v"

text \<open>
  \<^verbatim>\<open>writeTag\<close> with the loops of \<^verbatim>\<open>writeSmallTuple\<close> and \<^verbatim>\<open>writeList\<close> (\<open>writeElems\<close>: the
  loop stops at the first element that returns an error). The result is the writer and
  the returned \<^verbatim>\<open>err\<close>. \<^verbatim>\<open>b.Bytes[0:b.Bits/8]\<close> panics when the bound exceeds the capacity.
\<close>

function (sequential)
    writeTag :: "(float32 \<Rightarrow> byte list) \<Rightarrow> writer \<Rightarrow> val \<Rightarrow> (writer \<times> error option) outcome"
and writeKind :: "(float32 \<Rightarrow> byte list) \<Rightarrow> writer \<Rightarrow> val \<Rightarrow> (writer \<times> error option) outcome"
and writeSmallTuple :: "(float32 \<Rightarrow> byte list) \<Rightarrow> writer \<Rightarrow> val list \<Rightarrow> (writer \<times> error option) outcome"
and writeList :: "(float32 \<Rightarrow> byte list) \<Rightarrow> writer \<Rightarrow> val list \<Rightarrow> (writer \<times> error option) outcome"
and writeElems :: "(float32 \<Rightarrow> byte list) \<Rightarrow> writer \<Rightarrow> val list \<Rightarrow> (writer \<times> error option) outcome"
where
  "writeTag sprintf w val = writeKind sprintf w (Indirect val)"
| "writeKind sprintf w (VInt n) = Returns (writeNumber w (sint n), None)"
| "writeKind sprintf w (VUint n) = Returns (writeNumber w (uint n), None)"
| "writeKind sprintf w (VFloat f) =
     (case writeFloat sprintf w f of Returns w' \<Rightarrow> Returns (w', None)
      | Panics \<Rightarrow> Panics | Exhausted \<Rightarrow> Exhausted)"
| "writeKind sprintf w (VAtom a) = Returns (writeAtom w a, None)"
| "writeKind sprintf w (VString s) = Returns (writeString w s, None)"
| "writeKind sprintf w (VBytes b) = Returns (writeBinary w b, None)"
| "writeKind sprintf w (VSlice t) = writeSmallTuple sprintf w t"
| "writeKind sprintf w (VArray l) = writeList sprintf w l"
| "writeKind sprintf w (VBitstring bytes bits) =
     (if bits mod 8 \<noteq> 0 then Returns (writeBitstring w bytes bits, None)
      else if unat (bits div 8) \<le> length bytes
        then Returns (writeBinary w (take (unat (bits div 8)) bytes), None)
      else Panics)"
| "writeKind sprintf w (VList items) = writeList sprintf w items"
| "writeKind sprintf w (VBigInt bn) = Returns (writeNumber w bn, None)"
| "writeKind sprintf w (VRequest k m f a) = Returns (w, Some ErrUnknownType)"
| "writeKind sprintf w VOther = Returns (w, Some ErrUnknownType)"
| "writeKind sprintf w (VBool b) = Returns (w, Some ErrUnknownType)"
| "writeKind sprintf w VNil = Returns (writeNil w, None)"
| "writeKind sprintf w (VPtr p) =
     (case p of None \<Rightarrow> Returns (writeNil w, None)
      | Some _ \<Rightarrow> Returns (w, Some ErrUnknownType))"
| "writeSmallTuple sprintf w t =
     (let w1 = write1 w SmallTupleTag;
          sz = int (length t);
          w2 = write1 w1 (of_int sz)
      in writeElems sprintf w2 t)"
| "writeList sprintf w l =
     (let w1 = write1 w ListTag;
          sz = int (length l);
          w2 = write4 w1 (of_int sz)
      in case writeElems sprintf w2 l of
           Returns (w3, err) \<Rightarrow> Returns (writeNil w3, err)
         | Panics \<Rightarrow> Panics | Exhausted \<Rightarrow> Exhausted)"
| "writeElems sprintf w [] = Returns (w, None)"
| "writeElems sprintf w (x # xs) =
     (case writeTag sprintf w x of
        Returns (w', None) \<Rightarrow> writeElems sprintf w' xs
      | Returns (w', Some err) \<Rightarrow> Returns (w', Some err)
      | Panics \<Rightarrow> Panics | Exhausted \<Rightarrow> Exhausted)"
  by pat_completeness auto

termination
proof (relation "measure (\<lambda>x. case x of
      Inl (Inl (_, _, v)) \<Rightarrow> 2 * size v + 1
    | Inl (Inr (_, _, v)) \<Rightarrow> 2 * size v
    | Inr (Inl (_, _, t)) \<Rightarrow> 2 * size_list size t + 1
    | Inr (Inr (Inl (_, _, l))) \<Rightarrow> 2 * size_list size l + 1
    | Inr (Inr (Inr (_, _, xs))) \<Rightarrow> 2 * size_list size xs)", goal_cases)
  case (2 sprintf w val)
  have "size (Indirect val) \<le> size val"
    by (induction val rule: Indirect.induct) auto
  then show ?case by simp
qed auto

definition EncodeTo :: "(float32 \<Rightarrow> byte list) \<Rightarrow> writer \<Rightarrow> val \<Rightarrow> (writer \<times> error option) outcome" where
  "EncodeTo sprintf w val = writeTag sprintf (write1 w VersionTag) val"

definition Encode :: "(float32 \<Rightarrow> byte list) \<Rightarrow> val \<Rightarrow> (byte list \<times> error option) outcome" where
  "Encode sprintf val = EncodeTo sprintf [] val"

definition Marshal :: "(float32 \<Rightarrow> byte list) \<Rightarrow> writer \<Rightarrow> val \<Rightarrow> (writer \<times> error option) outcome" where
  "Marshal sprintf w val = EncodeTo sprintf w val"

definition MarshalResponse :: "(float32 \<Rightarrow> byte list) \<Rightarrow> writer \<Rightarrow> val \<Rightarrow> (writer \<times> error option) outcome" where
  "MarshalResponse sprintf w val =
     (case Encode sprintf val of
        Returns (resp, err) \<Rightarrow> Returns (write4 w (of_nat (length resp)) @ resp, err)
      | Panics \<Rightarrow> Panics | Exhausted \<Rightarrow> Exhausted)"

section \<open>Decoder (decode.go)\<close>

text \<open>
  The \<^verbatim>\<open>io.Reader\<close> is the bytes not yet read, an in-memory source that ends (the
  \<^verbatim>\<open>bytes.Buffer\<close> of \<^verbatim>\<open>Decode\<close>). \<open>ReadAllLimit r n\<close> is
  \<^verbatim>\<open>ioutil.ReadAll(io.LimitReader(r, n))\<close>: it reads up to \<open>n\<close> bytes, nothing when
  \<open>n \<le> 0\<close>, and reports the end of the source as success (\<^verbatim>\<open>err == nil\<close>) with the bytes
  it got. So on this reader the \<^verbatim>\<open>if err != nil\<close> branch after each such call is never
  taken, and the readers below have no error result of their own.
\<close>
type_synonym reader = "byte list"

definition ReadAllLimit :: "reader \<Rightarrow> int \<Rightarrow> byte list \<times> reader" where
  "ReadAllLimit r n = (if n \<le> 0 then ([], r) else (take (nat n) r, drop (nat n) r))"

definition andThen :: "'a outcome \<Rightarrow> ('a \<Rightarrow> 'b outcome) \<Rightarrow> 'b outcome" where
  "andThen m f = (case m of Returns x \<Rightarrow> f x | Panics \<Rightarrow> Panics | Exhausted \<Rightarrow> Exhausted)"

text \<open>\<^verbatim>\<open>bits[0]\<close> panics on an empty slice; \<^verbatim>\<open>binary.BigEndian.Uint16\<close> and \<^verbatim>\<open>Uint32\<close>
  panic on a slice shorter than 2 and 4 bytes.\<close>

definition read1 :: "reader \<Rightarrow> (int \<times> reader) outcome" where
  "read1 r =
     (case ReadAllLimit r 1 of
        ([], r') \<Rightarrow> Panics
      | (b0 # _, r') \<Rightarrow> Returns (uint b0, r'))"

definition read2 :: "reader \<Rightarrow> (int \<times> reader) outcome" where
  "read2 r =
     (case ReadAllLimit r 2 of
        (b0 # b1 # _, r') \<Rightarrow>
          (let ui16 = (ucast b1 OR push_bit 8 (ucast b0) :: 16 word) in Returns (uint ui16, r'))
      | (_, r') \<Rightarrow> Panics)"

definition read4 :: "reader \<Rightarrow> (int \<times> reader) outcome" where
  "read4 r =
     (case ReadAllLimit r 4 of
        (b0 # b1 # b2 # b3 # _, r') \<Rightarrow>
          (let ui32 = (ucast b3 OR push_bit 8 (ucast b2) OR push_bit 16 (ucast b1)
                        OR push_bit 24 (ucast b0) :: 32 word)
           in Returns (sint ui32, r'))
      | (_, r') \<Rightarrow> Panics)"

definition readSmallInt :: "reader \<Rightarrow> (int \<times> reader) outcome" where
  "readSmallInt r = read1 r"

definition readInt :: "reader \<Rightarrow> (int \<times> reader) outcome" where
  "readInt r = read4 r"

text \<open>\<open>parseFloat\<close> stands for \<^verbatim>\<open>strconv.ParseFloat(_, 32)\<close> followed by \<^verbatim>\<open>float32(f)\<close>;
  \<open>None\<close> is its error. The scan for the first zero byte is \<open>takeWhile\<close>.\<close>

definition readFloat :: "(byte list \<Rightarrow> float32 option) \<Rightarrow> reader \<Rightarrow> ((float32 \<times> error option) \<times> reader) outcome" where
  "readFloat parseFloat r =
     (case ReadAllLimit r 31 of
        (bits, r') \<Rightarrow>
          (case parseFloat (takeWhile (\<lambda>b. b \<noteq> 0) bits) of
             None \<Rightarrow> Returns ((0, Some ErrSyntax), r')
           | Some f \<Rightarrow> Returns ((f, None), r')))"

definition readString :: "reader \<Rightarrow> (gostring \<times> reader) outcome" where
  "readString r =
     andThen (read2 r) (\<lambda>(sz, r1).
       case ReadAllLimit r1 sz of (str, r2) \<Rightarrow> Returns (str, r2))"

definition readAtom :: "reader \<Rightarrow> (gostring \<times> reader) outcome" where
  "readAtom r = readString r"

definition readNil :: "reader \<Rightarrow> (val list \<times> reader) outcome" where
  "readNil r = (case ReadAllLimit r 1 of (_, r') \<Rightarrow> Returns ([], r'))"

definition readBin :: "reader \<Rightarrow> (byte list \<times> reader) outcome" where
  "readBin r =
     andThen (read4 r) (\<lambda>(sz, r1).
       case ReadAllLimit r1 sz of (bytes, r2) \<Rightarrow> Returns (bytes, r2))"

definition readBit :: "reader \<Rightarrow> (val \<times> reader) outcome" where
  "readBit r =
     andThen (read4 r) (\<lambda>(sz, r1).
     andThen (read1 r1) (\<lambda>(bits, r2).
       case ReadAllLimit r2 sz of (bytes, r3) \<Rightarrow> Returns (VBitstring bytes (of_int bits), r3)))"

text \<open>
  \<^verbatim>\<open>readTag\<close> and the functions that call it back are tied together through the
  argument \<open>rt\<close>, which stands for \<^verbatim>\<open>readTag\<close>. A result is the Go pair
  \<^verbatim>\<open>(Term, error)\<close> with the reader left behind.
\<close>

type_synonym tagReader = "reader \<Rightarrow> ((val \<times> error option) \<times> reader) outcome"

definition readComplex :: "tagReader \<Rightarrow> tagReader" where
  "readComplex rt r =
     andThen (rt r) (\<lambda>((term, err), r').
       case err of
         Some e \<Rightarrow> Returns ((term, Some e), r')
       | None \<Rightarrow>
          (case term of
             VAtom kind \<Rightarrow>
               if kind = NilAtom then Returns ((VNil, None), r')
               else if kind = TrueAtom then Returns ((VBool True, None), r')
               else if kind = FalseAtom then Returns ((VBool False, None), r')
               else Returns ((term, None), r')
           | _ \<Rightarrow> Returns ((term, None), r')))"

text \<open>The loop of \<^verbatim>\<open>readSmallTuple\<close>: \<open>n\<close> elements are still to read, \<open>tuple\<close> holds
  the elements already stored.\<close>

primrec tupleLoop :: "tagReader \<Rightarrow> nat \<Rightarrow> val list \<Rightarrow> tagReader" where
  "tupleLoop rt 0 tuple r = Returns ((VSlice tuple, None), r)"
| "tupleLoop rt (Suc n) tuple r =
     andThen (rt r) (\<lambda>((term, err), r').
       case err of
         Some e \<Rightarrow> Returns ((VNil, Some e), r')
       | None \<Rightarrow>
           if term = VAtom BertAtom then readComplex rt r'
           else tupleLoop rt n (tuple @ [term]) r')"

definition readSmallTuple :: "tagReader \<Rightarrow> tagReader" where
  "readSmallTuple rt r =
     andThen (read1 r) (\<lambda>(sz, r1). tupleLoop rt (nat sz) [] r1)"

text \<open>The loop of \<^verbatim>\<open>readList\<close>.\<close>

primrec listLoop :: "tagReader \<Rightarrow> nat \<Rightarrow> val list \<Rightarrow> reader \<Rightarrow> ((val list \<times> error option) \<times> reader) outcome" where
  "listLoop rt 0 list r = Returns ((list, None), r)"
| "listLoop rt (Suc n) list r =
     andThen (rt r) (\<lambda>((term, err), r').
       case err of
         Some e \<Rightarrow> Returns (([], Some e), r')
       | None \<Rightarrow> listLoop rt n (list @ [term]) r')"

text \<open>\<^verbatim>\<open>make([]Term, size)\<close> panics on a negative size. The terminator is read by
  \<^verbatim>\<open>read1\<close>, whose value is dropped and whose panic is not.\<close>

definition readList :: "tagReader \<Rightarrow> reader \<Rightarrow> ((val list \<times> error option) \<times> reader) outcome" where
  "readList rt r =
     andThen (read4 r) (\<lambda>(sz, r1).
       if sz < 0 then Panics
       else andThen (listLoop rt (nat sz) [] r1) (\<lambda>((list, err), r2).
         case err of
           Some e \<Rightarrow> Returns (([], Some e), r2)
         | None \<Rightarrow> andThen (read1 r2) (\<lambda>(_, r3). Returns ((list, None), r3))))"

text \<open>\<^verbatim>\<open>readTag\<close>; the first argument bounds the nesting depth of the calls.\<close>

primrec readTag :: "(byte list \<Rightarrow> float32 option) \<Rightarrow> nat \<Rightarrow> tagReader" where
  "readTag parseFloat 0 r = Exhausted"
| "readTag parseFloat (Suc k) r =
     andThen (read1 r) (\<lambda>(tag, r1).
       if tag = SmallIntTag then
         andThen (readSmallInt r1) (\<lambda>(n, r2). Returns ((VInt (of_int n), None), r2))
       else if tag = IntTag then
         andThen (readInt r1) (\<lambda>(n, r2). Returns ((VInt (of_int n), None), r2))
       else if tag = SmallBignumTag then Returns ((VNil, Some ErrUnknownType), r1)
       else if tag = LargeBignumTag then Returns ((VNil, Some ErrUnknownType), r1)
       else if tag = FloatTag then
         andThen (readFloat parseFloat r1) (\<lambda>((f, err), r2). Returns ((VFloat f, err), r2))
       else if tag = AtomTag then
         andThen (readAtom r1) (\<lambda>(a, r2). Returns ((VAtom a, None), r2))
       else if tag = SmallTupleTag then readSmallTuple (readTag parseFloat k) r1
       else if tag = LargeTupleTag then Returns ((VNil, Some ErrUnknownType), r1)
       else if tag = NilTag then
         andThen (readNil r1) (\<lambda>(l, r2). Returns ((VSlice l, None), r2))
       else if tag = StringTag then
         andThen (readString r1) (\<lambda>(s, r2). Returns ((VString s, None), r2))
       else if tag = ListTag then
         andThen (readList (readTag parseFloat k) r1) (\<lambda>((l, err), r2). Returns ((VSlice l, err), r2))
       else if tag = BinTag then
         andThen (readBin r1) (\<lambda>(b, r2). Returns ((VBytes b, None), r2))
       else if tag = BitTag then
         andThen (readBit r1) (\<lambda>(b, r2). Returns ((b, None), r2))
       else Returns ((VNil, Some ErrUnknownType), r1))"

text \<open>Every nested \<^verbatim>\<open>readTag\<close> call starts by reading a tag byte, so the nesting depth
  is at most the number of bytes left.\<close>

definition DecodeFrom :: "(byte list \<Rightarrow> float32 option) \<Rightarrow> tagReader" where
  "DecodeFrom parseFloat r =
     andThen (read1 r) (\<lambda>(version, r1).
       if version \<noteq> VersionTag then Returns ((VNil, Some ErrBadMagic), r1)
       else readTag parseFloat (Suc (length r1)) r1)"

definition Decode :: "(byte list \<Rightarrow> float32 option) \<Rightarrow> byte list \<Rightarrow> (val \<times> error option) outcome" where
  "Decode parseFloat data = andThen (DecodeFrom parseFloat data) (\<lambda>(res, _). Returns res)"


subsection \<open>Struct binding and framing\<close>

text \<open>
  \<^verbatim>\<open>UnmarshalFrom(r, val)\<close> is modelled for the two shapes of \<^verbatim>\<open>val\<close> that matter: a
  pointer to a \<^verbatim>\<open>Request\<close> (kind Struct) and a pointer to a value of any kind other than
  Struct, which the function leaves as it is.
\<close>

datatype target = PtrRequest Request | PtrNonStruct

text \<open>\<^verbatim>\<open>v.Field(i).Set(e)\<close> on a \<^verbatim>\<open>Request\<close>: \<^verbatim>\<open>Field\<close> panics when \<open>i\<close> is not below 4,
  \<^verbatim>\<open>Set\<close> panics when \<open>e\<close> is invalid or not assignable to the field's type (\<^verbatim>\<open>Atom\<close>,
  \<^verbatim>\<open>Atom\<close>, \<^verbatim>\<open>Atom\<close>, \<^verbatim>\<open>[]Term\<close>).\<close>

definition FieldSet :: "Request \<Rightarrow> nat \<Rightarrow> val \<Rightarrow> Request outcome" where
  "FieldSet req i e =
     (if i = 0 then (case e of VAtom a \<Rightarrow> Returns (req\<lparr>Kind := a\<rparr>) | _ \<Rightarrow> Panics)
      else if i = 1 then (case e of VAtom a \<Rightarrow> Returns (req\<lparr>Module := a\<rparr>) | _ \<Rightarrow> Panics)
      else if i = 2 then (case e of VAtom a \<Rightarrow> Returns (req\<lparr>Function := a\<rparr>) | _ \<Rightarrow> Panics)
      else if i = 3 then (case e of VSlice a \<Rightarrow> Returns (req\<lparr>Arguments := a\<rparr>) | _ \<Rightarrow> Panics)
      else Panics)"

text \<open>The loop of \<^verbatim>\<open>UnmarshalFrom\<close> over a sequence of \<^verbatim>\<open>Term\<close>s, from index \<open>i\<close> on.\<close>

fun bindLoop :: "val list \<Rightarrow> nat \<Rightarrow> Request \<Rightarrow> Request outcome" where
  "bindLoop [] i req = Returns req"
| "bindLoop (e # es) i req = andThen (FieldSet req i e) (\<lambda>req'. bindLoop es (Suc i) req')"

text \<open>
  \<open>result\<close> is what \<^verbatim>\<open>DecodeFrom\<close> returned, its error dropped (\<^verbatim>\<open>result, _ :=\<close>).
  \<^verbatim>\<open>slice.Len()\<close> panics unless \<open>result\<close> is a slice, an array or a string;
  \<^verbatim>\<open>slice.Index(i).Elem()\<close> panics on the bytes of a string or of a \<^verbatim>\<open>[]byte\<close>, so
  those pass only when empty. The returned error is always nil.
\<close>

definition UnmarshalFrom :: "(byte list \<Rightarrow> float32 option) \<Rightarrow> reader \<Rightarrow> target \<Rightarrow> ((target \<times> error option) \<times> reader) outcome" where
  "UnmarshalFrom parseFloat r val =
     andThen (DecodeFrom parseFloat r) (\<lambda>((result, _), r').
       case val of
         PtrNonStruct \<Rightarrow> Returns ((PtrNonStruct, None), r')
       | PtrRequest v \<Rightarrow>
          (case result of
             VSlice elems \<Rightarrow> andThen (bindLoop elems 0 v) (\<lambda>v'. Returns ((PtrRequest v', None), r'))
           | VArray elems \<Rightarrow> andThen (bindLoop elems 0 v) (\<lambda>v'. Returns ((PtrRequest v', None), r'))
           | VAtom s \<Rightarrow> if s = [] then Returns ((PtrRequest v, None), r') else Panics
           | VString s \<Rightarrow> if s = [] then Returns ((PtrRequest v, None), r') else Panics
           | VBytes s \<Rightarrow> if s = [] then Returns ((PtrRequest v, None), r') else Panics
           | _ \<Rightarrow> Panics))"

definition Unmarshal :: "(byte list \<Rightarrow> float32 option) \<Rightarrow> byte list \<Rightarrow> target \<Rightarrow> (target \<times> error option) outcome" where
  "Unmarshal parseFloat data val = andThen (UnmarshalFrom parseFloat data val) (\<lambda>(res, _). Returns res)"

text \<open>\<^verbatim>\<open>io.LimitReader(r, n)\<close>: at most \<open>n\<close> bytes of \<open>r\<close>, none when \<open>n \<le> 0\<close>.\<close>

definition LimitReader :: "reader \<Rightarrow> int \<Rightarrow> reader" where
  "LimitReader r n = take (nat n) r"

definition zeroRequest :: Request where
  "zeroRequest = \<lparr>Kind = [], Module = [], Function = [], Arguments = []\<rparr>"

definition UnmarshalRequest :: "(byte list \<Rightarrow> float32 option) \<Rightarrow> reader \<Rightarrow> (Request \<times> error option) outcome" where
  "UnmarshalRequest parseFloat r =
     andThen (read4 r) (\<lambda>(sz, r1).
     andThen (UnmarshalFrom parseFloat (LimitReader r1 sz) (PtrRequest zeroRequest)) (\<lambda>((val, err), _).
       case val of PtrRequest req \<Rightarrow> Returns (req, err) | PtrNonStruct \<Rightarrow> Panics))"


section \<open>Notions used to state the properties\<close>

text \<open>The integer that a little-endian sequence of bytes denotes.\<close>

fun le_val :: "byte list \<Rightarrow> int" where
  "le_val [] = 0"
| "le_val (b # bs) = uint b + 256 * le_val bs"

text \<open>A result of the encoder with \<open>w0\<close> put in front of the writer.\<close>

definition prefixed :: "writer \<Rightarrow> (writer \<times> error option) outcome \<Rightarrow> (writer \<times> error option) outcome" where
  "prefixed w0 out =
     (case out of Returns (b, e) \<Rightarrow> Returns (w0 @ b, e) | Panics \<Rightarrow> Panics | Exhausted \<Rightarrow> Exhausted)"

text \<open>The bytes that \<open>writeTag\<close> appends for a value.\<close>

definition wire :: "(float32 \<Rightarrow> byte list) \<Rightarrow> val \<Rightarrow> byte list" where
  "wire sprintf v = (case writeTag sprintf [] v of Returns (b, _) \<Rightarrow> b | _ \<Rightarrow> [])"

text \<open>
  What the decoder hands back for an encoded value. \<open>val\<close> records a value and not its Go
  type, and the decoder builds values of the types \<^verbatim>\<open>int\<close>, \<^verbatim>\<open>float32\<close>, \<^verbatim>\<open>Atom\<close>,
  \<^verbatim>\<open>string\<close>, \<^verbatim>\<open>[]byte\<close>, \<^verbatim>\<open>Bitstring\<close> and \<^verbatim>\<open>[]Term\<close> only. So in \<open>canon x\<close> a \<open>VInt\<close> is
  a Go \<^verbatim>\<open>int\<close> and a \<open>VFloat\<close> a \<^verbatim>\<open>float32\<close>, whatever integer or float type \<open>x\<close> had, and
  a \<open>VSlice\<close> is a \<^verbatim>\<open>[]Term\<close>, whatever slice, array or \<^verbatim>\<open>List\<close> \<open>x\<close> was. A bitstring of
  whole bytes comes back as a \<^verbatim>\<open>[]byte\<close>; any other bitstring comes back as the
  \<open>(bits + 7) div 8\<close> bytes written for it with the bit count \<open>bits mod 8\<close>.
\<close>

fun canon :: "val \<Rightarrow> val" where
  "canon (VUint n) = VInt (of_int (uint n))"
| "canon (VBigInt n) = VInt (of_int n)"
| "canon (VBitstring bytes bits) =
     (if bits mod 8 = 0 then VBytes (take (unat (bits div 8)) bytes)
      else VBitstring (take ((unat bits + 7) div 8) (padFront ((unat bits + 7) div 8) bytes))
                      (bits mod 8))"
| "canon (VSlice xs) = VSlice (map canon xs)"
| "canon (VArray xs) = VSlice (map canon xs)"
| "canon (VList xs) = VSlice (map canon xs)"
| "canon v = v"

text \<open>
  The values for which encoding followed by decoding is shown to succeed: integers of
  the 32-bit signed range, floats whose text (as \<open>sprintf\<close> gives it) has at most 31
  bytes, none of them zero, and is parsed back by \<open>parseFloat\<close> to the same float, atoms
  and strings shorter than 65536 bytes, binaries shorter than \<open>2^31\<close> bytes, bitstrings
  whose bit count is not a multiple of 8 or whose buffer holds all their bytes, tuples of
  fewer than 256 such values none of which is the atom \<open>bert\<close>, and lists of fewer than
  \<open>2^31\<close> such values. For a float this asks of the two library functions that the one
  reads back what the other printed; nothing about them is proved.
\<close>

fun representable :: "(float32 \<Rightarrow> byte list) \<Rightarrow> (byte list \<Rightarrow> float32 option) \<Rightarrow> val \<Rightarrow> bool" where
  "representable sp pf (VInt n) \<longleftrightarrow> - 2147483648 \<le> sint n \<and> sint n \<le> 2147483647"
| "representable sp pf (VUint n) \<longleftrightarrow> uint n \<le> 2147483647"
| "representable sp pf (VBigInt n) \<longleftrightarrow> - 2147483648 \<le> n \<and> n \<le> 2147483647"
| "representable sp pf (VFloat f) \<longleftrightarrow>
     length (sp f) \<le> 31 \<and> 0 \<notin> set (sp f) \<and> pf (sp f) = Some f"
| "representable sp pf (VAtom a) \<longleftrightarrow> length a < 65536"
| "representable sp pf (VString s) \<longleftrightarrow> length s < 65536"
| "representable sp pf (VBytes b) \<longleftrightarrow> length b < 2147483648"
| "representable sp pf (VBitstring bytes bits) \<longleftrightarrow>
     bits mod 8 \<noteq> 0 \<or> unat (bits div 8) \<le> length bytes"
| "representable sp pf (VSlice xs) \<longleftrightarrow>
     length xs < 256 \<and> list_all (\<lambda>x. representable sp pf x \<and> x \<noteq> VAtom BertAtom) xs"
| "representable sp pf (VArray xs) \<longleftrightarrow>
     length xs < 2147483648 \<and> list_all (representable sp pf) xs"
| "representable sp pf (VList xs) \<longleftrightarrow>
     length xs < 2147483648 \<and> list_all (representable sp pf) xs"
| "representable sp pf _ \<longleftrightarrow> False"

text \<open>A value whose encoding is written without error and read back, with any
  recursion depth that its length allows, as its decoder's shape.\<close>

definition wire_ok :: "(float32 \<Rightarrow> byte list) \<Rightarrow> (byte list \<Rightarrow> float32 option) \<Rightarrow> val \<Rightarrow> bool" where
  "wire_ok sp pf v \<longleftrightarrow>
     writeTag sp [] v = Returns (wire sp v, None) \<and> wire sp v \<noteq> []
     \<and> (\<forall>k r. length (wire sp v) \<le> k \<longrightarrow>
           readTag pf k (wire sp v @ r) = Returns ((canon v, None), r))"

text \<open>A result that is not the exhaustion of the depth bound and that leaves at most
  \<open>n\<close> bytes unread.\<close>

definition within :: "nat \<Rightarrow> ('a \<times> reader) outcome \<Rightarrow> bool" where
  "within n res \<longleftrightarrow> res \<noteq> Exhausted \<and> (\<forall>x r'. res = Returns (x, r') \<longrightarrow> length r' \<le> n)"

text \<open>A reader that, on every input shorter than \<open>m\<close>, stays within the depth bound and
  leaves no more input than it was given.\<close>

definition bounded_reader :: "nat \<Rightarrow> (reader \<Rightarrow> ('a \<times> reader) outcome) \<Rightarrow> bool" where
  "bounded_reader m rd \<longleftrightarrow>
     (\<forall>r. length r < m \<longrightarrow>
        rd r \<noteq> Exhausted \<and> (\<forall>x r'. rd r = Returns (x, r') \<longrightarrow> length r' \<le> length r))"

section \<open>Numbers on the wire\<close>

lemma le_bytes_nonpos [simp]: "n \<le> 0 \<Longrightarrow> le_bytes n = []"
  by (simp add: le_bytes.simps)

lemma le_bytes_pos: "0 < n \<Longrightarrow> le_bytes n = of_int (n mod 256) # le_bytes (n div 256)"
  by (subst le_bytes.simps) simp

lemma uint_byte_of_int_mod: "uint (of_int (n mod 256) :: byte) = n mod 256"
  by (simp add: uint_word_of_int)

lemma le_val_le_bytes: "0 \<le> n \<Longrightarrow> le_val (le_bytes n) = n"
proof (induction n rule: le_bytes.induct)
  case (1 n)
  show ?case
  proof (cases "n = 0")
    case True
    then show ?thesis by simp
  next
    case False
    with 1 have pos: "0 < n" by simp
    then have "le_val (le_bytes (n div 256)) = n div 256"
      using 1 by simp
    then show ?thesis
      using pos by (simp add: le_bytes_pos uint_byte_of_int_mod)
  qed
qed

lemma length_le_bytes: "n < 256 ^ k \<Longrightarrow> length (le_bytes n) \<le> k"
proof (induction k arbitrary: n)
  case 0
  then show ?case by simp
next
  case (Suc k)
  show ?case
  proof (cases "0 < n")
    case True
    have "n div 256 < 256 ^ k" using Suc.prems by simp
    then show ?thesis using Suc.IH True by (simp add: le_bytes_pos)
  next
    case False
    then show ?thesis by simp
  qed
qed

lemma writeNumber_small:
  "0 \<le> n \<Longrightarrow> n \<le> 255 \<Longrightarrow> writeNumber w n = w @ [SmallIntTag, of_int n]"
  by (simp add: writeNumber_def IsInt64_def writeSmallInt_def write1_def)

lemma writeNumber_int:
  "- 2147483648 \<le> n \<Longrightarrow> n \<le> 2147483647 \<Longrightarrow> \<not> (0 \<le> n \<and> n \<le> 255) \<Longrightarrow>
   writeNumber w n = w @ IntTag # write4 [] (of_int n)"
  by (auto simp add: writeNumber_def IsInt64_def writeInt_def write1_def write4_def)

lemma writeNumber_big:
  "\<not> (- 2147483648 \<le> n \<and> n \<le> 2147483647) \<Longrightarrow>
   writeNumber w n =
     w @ [SmallBignumTag, of_nat (length (le_bytes \<bar>n\<bar>)), if n < 0 then 1 else 0] @ le_bytes \<bar>n\<bar>"
  by (auto simp add: writeNumber_def IsInt64_def write1_def big_Bytes_def Let_def sgn_if)

lemma writeNumber_cases:
  "writeNumber w n = w @
     (if 0 \<le> n \<and> n \<le> 255 then [SmallIntTag, of_int n]
      else if - 2147483648 \<le> n \<and> n \<le> 2147483647 then IntTag # write4 [] (of_int n)
      else [SmallBignumTag, of_nat (length (le_bytes \<bar>n\<bar>)), if n < 0 then 1 else 0]
             @ le_bytes \<bar>n\<bar>)"
proof (cases "0 \<le> n \<and> n \<le> 255")
  case True
  then show ?thesis by (simp add: writeNumber_small)
next
  case outside: False
  show ?thesis
  proof (cases "- 2147483648 \<le> n \<and> n \<le> 2147483647")
    case True
    with outside show ?thesis using writeNumber_int [of n w] by simp
  next
    case False
    with outside show ?thesis using writeNumber_big [of n w] by auto
  qed
qed

text \<open>
  C4. A signed integer is encoded by magnitude: in \<open>[0, 255]\<close> as the tag 97 and one byte;
  elsewhere in the 32-bit two's-complement range as the tag 98 and four big-endian bytes;
  outside that range as the tag 110, a count byte, a sign byte and the magnitude.
\<close>

theorem writeTag_signed_by_magnitude:
  "writeTag sprintf w (VInt x) = Returns (w @
     (if 0 \<le> sint x \<and> sint x \<le> 255 then [SmallIntTag, of_int (sint x)]
      else if - 2147483648 \<le> sint x \<and> sint x \<le> 2147483647
        then IntTag # write4 [] (of_int (sint x))
      else [SmallBignumTag, of_nat (length (le_bytes \<bar>sint x\<bar>)), if sint x < 0 then 1 else 0]
             @ le_bytes \<bar>sint x\<bar>), None)"
  using writeNumber_cases [of w "sint x"] by simp


theorem writeTag_signed_by_magnitude_witness:
  "writeTag (\<lambda>_. []) [] (VInt 255) = Returns ([97, 255], None)
   \<and> writeTag (\<lambda>_. []) [] (VInt 256) = Returns ([98, 0, 0, 1, 0], None)
   \<and> writeTag (\<lambda>_. []) [] (VInt 2147483647) = Returns ([98, 127, 255, 255, 255], None)
   \<and> writeTag (\<lambda>_. []) [] (VInt (- 2147483648)) = Returns ([98, 128, 0, 0, 0], None)
   \<and> writeTag (\<lambda>_. []) [] (VInt 2147483648) = Returns ([110, 4, 0, 0, 0, 0, 128], None)
   \<and> writeTag (\<lambda>_. []) [] (VInt (- 2147483649)) = Returns ([110, 4, 1, 1, 0, 0, 128], None)"
  using writeTag_signed_by_magnitude [of "\<lambda>_. []" "[]" 255]
    writeTag_signed_by_magnitude [of "\<lambda>_. []" "[]" 256]
    writeTag_signed_by_magnitude [of "\<lambda>_. []" "[]" 2147483647]
    writeTag_signed_by_magnitude [of "\<lambda>_. []" "[]" "- 2147483648"]
    writeTag_signed_by_magnitude [of "\<lambda>_. []" "[]" 2147483648]
    writeTag_signed_by_magnitude [of "\<lambda>_. []" "[]" "- 2147483649"]
  by (simp add: write4_def le_bytes_pos)

lemma le_bytes_power: "le_bytes (256 ^ k) = replicate k 0 @ [1]"
proof (induction k)
  case 0
  show ?case by (simp add: le_bytes_pos)
next
  case (Suc k)
  have "(0::int) < 256 ^ Suc k" by simp
  then have "le_bytes (256 ^ Suc k) = of_int (256 ^ Suc k mod 256) # le_bytes (256 ^ Suc k div 256)"
    by (rule le_bytes_pos)
  then show ?case using Suc by simp
qed

text \<open>
  C5, as stated, at the \<^verbatim>\<open>big.Int\<close> \<open>256^255\<close>: its magnitude has 256 bytes, and the byte
  written as their count is 0.
\<close>

theorem writeNumber_bignum_count_wraps:
  "writeNumber [] (256 ^ 255) = [SmallBignumTag, 0, 0] @ replicate 255 0 @ [1]"
proof -
  have "(2147483647::int) < 256 ^ 4" by simp
  also have "(256::int) ^ 4 \<le> 256 ^ 255" by (rule power_increasing) simp_all
  finally have big: "\<not> (- 2147483648 \<le> (256::int) ^ 255 \<and> (256::int) ^ 255 \<le> 2147483647)" by simp
  have pos: "\<not> (256::int) ^ 255 < 0" by simp
  have mag: "\<bar>(256::int) ^ 255\<bar> = 256 ^ 255" by (rule abs_of_nonneg) simp
  have len: "length (replicate 255 (0::byte) @ [1]) = 256" by simp
  have cnt: "(of_nat 256 :: byte) = 0" by simp
  show ?thesis
    unfolding writeNumber_big [OF big] mag le_bytes_power len cnt
    using pos by (simp only: if_False append_Nil)
qed

text \<open>
  C5, amended. For an integer outside the 32-bit two's-complement range the encoder
  writes the tag 110, a count byte, a sign byte (0 for a non-negative integer, 1 for a
  negative one) and the bytes of the magnitude, least significant first. The count byte
  is the number of magnitude bytes modulo 256; it is that number itself for every
  magnitude below \<open>2^2040\<close>.
\<close>

theorem writeNumber_bignum_layout:
  assumes "n < - 2147483648 \<or> 2147483647 < n"
  shows "writeNumber w n =
           w @ [SmallBignumTag, of_nat (length (le_bytes \<bar>n\<bar>)), if n < 0 then 1 else 0]
             @ le_bytes \<bar>n\<bar>
         \<and> le_val (le_bytes \<bar>n\<bar>) = \<bar>n\<bar>
         \<and> unat (of_nat (length (le_bytes \<bar>n\<bar>)) :: byte) = length (le_bytes \<bar>n\<bar>) mod 256
         \<and> (\<bar>n\<bar> < 2 ^ 2040 \<longrightarrow>
              unat (of_nat (length (le_bytes \<bar>n\<bar>)) :: byte) = length (le_bytes \<bar>n\<bar>))"
proof -
  have layout: "writeNumber w n =
      w @ [SmallBignumTag, of_nat (length (le_bytes \<bar>n\<bar>)), if n < 0 then 1 else 0] @ le_bytes \<bar>n\<bar>"
    using assms by (intro writeNumber_big) auto
  have val: "le_val (le_bytes \<bar>n\<bar>) = \<bar>n\<bar>"
    by (simp add: le_val_le_bytes)
  have cnt: "unat (of_nat (length (le_bytes \<bar>n\<bar>)) :: byte) = length (le_bytes \<bar>n\<bar>) mod 256"
    by (simp add: unat_of_nat)
  have exact: "unat (of_nat (length (le_bytes \<bar>n\<bar>)) :: byte) = length (le_bytes \<bar>n\<bar>)"
    if "\<bar>n\<bar> < 2 ^ 2040"
  proof -
    have "\<bar>n\<bar> < 256 ^ 255" using that by simp
    then have "length (le_bytes \<bar>n\<bar>) \<le> 255" by (rule length_le_bytes)
    then show ?thesis by (simp add: unat_of_nat)
  qed
  from layout val cnt exact show ?thesis by blast
qed

theorem writeNumber_bignum_layout_witness:
  "((100000000000::int) < - 2147483648 \<or> 2147483647 < (100000000000::int))
   \<and> writeNumber [] 100000000000 = [110, 5, 0, 0, 232, 118, 72, 23]
   \<and> le_val [0, 232, 118, 72, 23] = 100000000000
   \<and> writeNumber [] (- 100000000000) = [110, 5, 1, 0, 232, 118, 72, 23]"
  using writeNumber_bignum_layout [of 100000000000 "[]"]
        writeNumber_bignum_layout [of "- 100000000000" "[]"]
  by (simp add: le_bytes_pos)

text \<open>C6, as stated, at \<^verbatim>\<open>uint(1)\<close>: the tag written is 97, not the big-number tag 110.\<close>

theorem writeTag_unsigned_small_int:
  "writeTag (\<lambda>_. []) [] (VUint 1) = Returns ([SmallIntTag, 1], None)"
  by (simp add: writeNumber_small)

text \<open>
  C6, amended. An unsigned input is widened to an unbounded integer and encoded by
  magnitude like any other integer: up to 255 as the tag 97 and one byte, up to
  2147483647 as the tag 98 and four bytes, and above that with the big-number tag 110
  and the sign byte 0.
\<close>

theorem writeTag_unsigned_by_magnitude:
  "writeTag sprintf w (VUint x) = Returns (writeNumber w (uint x), None)
   \<and> writeNumber w (uint x) = w @
     (if uint x \<le> 255 then [SmallIntTag, of_int (uint x)]
      else if uint x \<le> 2147483647 then IntTag # write4 [] (of_int (uint x))
      else [SmallBignumTag, of_nat (length (le_bytes (uint x))), 0] @ le_bytes (uint x))"
  using writeNumber_cases [of w "uint x"] by simp

theorem writeTag_unsigned_by_magnitude_witness:
  "writeTag (\<lambda>_. []) [] (VUint 1) = Returns ([97, 1], None)
   \<and> writeTag (\<lambda>_. []) [] (VUint 256) = Returns ([98, 0, 0, 1, 0], None)
   \<and> writeTag (\<lambda>_. []) [] (VUint 100000000000) = Returns ([110, 5, 0, 0, 232, 118, 72, 23], None)"
  using writeTag_unsigned_by_magnitude [of "\<lambda>_. []" "[]" 1]
    writeTag_unsigned_by_magnitude [of "\<lambda>_. []" "[]" 256]
    writeTag_unsigned_by_magnitude [of "\<lambda>_. []" "[]" 100000000000]
  by (simp add: write4_def le_bytes_pos)

section \<open>Bitstrings of whole bytes\<close>

lemma writeTag_bitstring_whole_bytes:
  assumes "bits mod 8 = 0" "unat (bits div 8) \<le> length bytes"
  shows "writeTag sprintf w (VBitstring bytes bits)
         = Returns (writeBinary w (take (unat (bits div 8)) bytes), None)"
  using assms by simp

text \<open>
  C7. A \<^verbatim>\<open>Bitstring\<close> of 8 bits over an empty buffer makes the encoder panic on
  \<^verbatim>\<open>b.Bytes[0:b.Bits/8]\<close>, where the fractional path next to it pads a short buffer with
  zero bytes (second line); with a buffer that holds the bits, the output is the binary
  encoding (third line).
\<close>

theorem Encode_bitstring_whole_bytes_short_buffer:
  "Encode (\<lambda>_. []) (VBitstring [] 8) = Panics
   \<and> Encode (\<lambda>_. []) (VBitstring [] 1) = Returns ([131, 77, 0, 0, 0, 1, 1, 0], None)
   \<and> Encode (\<lambda>_. []) (VBitstring [7] 8) = Returns ([131, 109, 0, 0, 0, 1, 7], None)"
  by code_simp

section \<open>Truncated input and dropped errors\<close>

text \<open>
  C2. On an input that ends early the decoder panics inside a fixed-width read (first two
  lines) or returns the bytes it got as a successful value (last two lines); no error is
  returned.
\<close>

theorem Decode_truncated:
  "Decode (\<lambda>_. None) [131] = Panics
   \<and> Decode (\<lambda>_. None) [131, 98, 0, 0] = Panics
   \<and> Decode (\<lambda>_. None) [131, 107, 0, 5, 97] = Returns (VString [97], None)
   \<and> Decode (\<lambda>_. None) [131, 109, 0, 0, 0, 4, 1] = Returns (VBytes [1], None)"
  by code_simp

text \<open>
  C3. \<^verbatim>\<open>Decode\<close> reports a wrong version byte as \<^verbatim>\<open>ErrBadMagic\<close>; \<^verbatim>\<open>Unmarshal\<close> on the
  same input returns a nil error; \<^verbatim>\<open>UnmarshalRequest\<close> panics on it; and on a frame whose
  atom is cut short \<^verbatim>\<open>UnmarshalRequest\<close> returns a nil error with a \<^verbatim>\<open>Request\<close> of which
  one field is set.
\<close>

theorem Unmarshal_drops_error:
  "Decode (\<lambda>_. None) [0] = Returns (VNil, Some ErrBadMagic)
   \<and> Unmarshal (\<lambda>_. None) [0] PtrNonStruct = Returns (PtrNonStruct, None)
   \<and> UnmarshalRequest (\<lambda>_. None) [0, 0, 0, 1, 0] = Panics
   \<and> UnmarshalRequest (\<lambda>_. None) [0, 0, 0, 9, 131, 104, 1, 100, 0, 5, 97]
       = Returns (zeroRequest\<lparr>Kind := [97]\<rparr>, None)"
  by code_simp

section \<open>Reading back what the writers wrote\<close>

lemma be32_join:
  "(ucast (ucast w :: byte) OR push_bit 8 (ucast (ucast (drop_bit 8 w) :: byte))
     OR push_bit 16 (ucast (ucast (drop_bit 16 w) :: byte))
     OR push_bit 24 (ucast (ucast (drop_bit 24 w) :: byte)) :: 32 word) = w"
proof (rule bit_word_eqI)
  fix n assume "n < LENGTH(32)"
  then show "bit (ucast (ucast w :: byte) OR push_bit 8 (ucast (ucast (drop_bit 8 w) :: byte))
     OR push_bit 16 (ucast (ucast (drop_bit 16 w) :: byte))
     OR push_bit 24 (ucast (ucast (drop_bit 24 w) :: byte)) :: 32 word) n = bit w n"
    by (cases "n < 8"; cases "n < 16"; cases "n < 24") (auto simp: bit_simps)
qed

lemma be16_join:
  "(ucast (ucast w :: byte) OR push_bit 8 (ucast (ucast (drop_bit 8 w) :: byte)) :: 16 word) = w"
  by (rule bit_word_eqI) (auto simp: bit_simps)

lemma read1_Cons [simp]: "read1 (b # r) = Returns (uint b, r)"
  by (simp add: read1_def ReadAllLimit_def)

lemma read1_Nil [simp]: "read1 [] = Panics"
  by (simp add: read1_def ReadAllLimit_def)

lemma read2_write2 [simp]: "read2 (write2 [] w @ r) = Returns (uint w, r)"
  by (simp add: read2_def write2_def ReadAllLimit_def be16_join)

lemma read4_write4 [simp]: "read4 (write4 [] w @ r) = Returns (sint w, r)"
  by (simp add: read4_def write4_def ReadAllLimit_def be32_join)

lemma ReadAllLimit_append [simp]: "ReadAllLimit (a @ r) (int (length a)) = (a, r)"
  by (auto simp add: ReadAllLimit_def)

lemma andThen_Returns [simp]: "andThen (Returns x) f = f x"
  by (simp add: andThen_def)

lemma andThen_Panics [simp]: "andThen Panics f = Panics"
  by (simp add: andThen_def)

lemma andThen_Exhausted [simp]: "andThen Exhausted f = Exhausted"
  by (simp add: andThen_def)

lemma sint32_of_int: "- 2147483648 \<le> n \<Longrightarrow> n \<le> 2147483647 \<Longrightarrow> sint (of_int n :: 32 word) = n"
  by (simp add: signed_of_int signed_take_bit_int_eq_self)

lemma sint32_of_nat: "n < 2147483648 \<Longrightarrow> sint (of_nat n :: 32 word) = int n"
  by (simp add: signed_of_nat signed_take_bit_int_eq_self)

lemma uint16_of_nat: "n < 65536 \<Longrightarrow> uint (of_nat n :: 16 word) = int n"
  by (simp add: uint_nat unat_of_nat)

lemma uint8_of_nat: "n < 256 \<Longrightarrow> uint (of_nat n :: byte) = int n"
  by (simp add: uint_nat unat_of_nat)

lemma uint8_of_int: "0 \<le> n \<Longrightarrow> n \<le> 255 \<Longrightarrow> uint (of_int n :: byte) = n"
  by (simp add: uint_word_of_int)

lemma readTag_writeNumber:
  assumes "- 2147483648 \<le> n" "n \<le> 2147483647"
  shows "readTag pf (Suc k) (writeNumber [] n @ r) = Returns ((VInt (of_int n), None), r)"
proof (cases "0 \<le> n \<and> n \<le> 255")
  case True
  then show ?thesis
    by (simp add: writeNumber_small readSmallInt_def uint8_of_int)
next
  case False
  then have "writeNumber [] n = IntTag # write4 [] (of_int n)"
    using assms writeNumber_int [of n "[]"] by simp
  then show ?thesis
    using assms by (simp add: readInt_def sint32_of_int)
qed

lemma writeAtom_wire: "writeAtom w a = w @ AtomTag # write2 [] (of_nat (length a)) @ a"
  by (simp add: writeAtom_def write1_def write2_def)

lemma writeString_wire: "writeString w a = w @ StringTag # write2 [] (of_nat (length a)) @ a"
  by (simp add: writeString_def write1_def write2_def)

lemma writeBinary_wire: "writeBinary w a = w @ BinTag # write4 [] (of_nat (length a)) @ a"
  by (simp add: writeBinary_def write1_def write4_def)

lemma padFront_enough [simp]: "sz \<le> length a \<Longrightarrow> padFront sz a = a"
  by (subst padFront.simps) simp

lemma length_padFront: "sz \<le> length (padFront sz a)"
proof (induction sz a rule: padFront.induct)
  case (1 sz a)
  then show ?case by (subst padFront.simps) simp
qed

lemma writeBitstring_wire:
  "writeBitstring w a bits =
     w @ BitTag # write4 [] (of_nat ((unat bits + 7) div 8))
       @ (bits mod 8) # take ((unat bits + 7) div 8) (padFront ((unat bits + 7) div 8) a)"
  by (simp add: writeBitstring_def write1_def write4_def Let_def)

lemma readTag_writeAtom:
  "length a < 65536 \<Longrightarrow> readTag pf (Suc k) (writeAtom [] a @ r) = Returns ((VAtom a, None), r)"
  by (simp add: writeAtom_wire readAtom_def readString_def uint16_of_nat)

lemma readTag_writeString:
  "length a < 65536 \<Longrightarrow> readTag pf (Suc k) (writeString [] a @ r) = Returns ((VString a, None), r)"
  by (simp add: writeString_wire readString_def uint16_of_nat)

lemma readTag_writeBinary:
  "length a < 2147483648 \<Longrightarrow> readTag pf (Suc k) (writeBinary [] a @ r) = Returns ((VBytes a, None), r)"
  by (simp add: writeBinary_wire readBin_def sint32_of_nat)

lemma takeWhile_padded:
  "0 \<notin> set s \<Longrightarrow> takeWhile (\<lambda>b. b \<noteq> 0) (s @ replicate n (0::byte)) = s"
  by (induction s) (auto simp: takeWhile_replicate)

lemma readTag_writeFloat:
  assumes "length s \<le> 31" "0 \<notin> set s" "pf s = Some f"
  shows "readTag pf (Suc k) (FloatTag # s @ replicate (31 - length s) 0 @ r) = Returns ((VFloat f, None), r)"
proof -
  have "ReadAllLimit (s @ replicate (31 - length s) 0 @ r) 31 = (s @ replicate (31 - length s) 0, r)"
    using assms(1) ReadAllLimit_append [of "s @ replicate (31 - length s) 0" r] by simp
  then show ?thesis
    using assms by (simp add: readFloat_def takeWhile_padded)
qed

lemma readTag_writeBitstring:
  "readTag pf (Suc k) (writeBitstring [] a bits @ r)
     = Returns ((VBitstring (take ((unat bits + 7) div 8) (padFront ((unat bits + 7) div 8) a))
                            (bits mod 8), None), r)"
proof -
  let ?sz = "(unat bits + 7) div 8"
  let ?p = "take ?sz (padFront ?sz a)"
  have "unat bits < 256" using unsigned_less [of bits, where 'a = nat] by simp
  then have small: "?sz < 2147483648" by simp
  have len: "length ?p = ?sz" using length_padFront [of ?sz a] by simp
  have rd: "ReadAllLimit (?p @ r) (int ?sz) = (?p, r)"
    using ReadAllLimit_append [of ?p r] len by simp
  show ?thesis
    using rd by (simp add: writeBitstring_wire readBit_def sint32_of_nat [OF small])
qed

section \<open>The encoder only appends\<close>

lemma prefixed_simps [simp]:
  "prefixed w0 (Returns (b, e)) = Returns (w0 @ b, e)"
  "prefixed w0 Panics = Panics"
  "prefixed w0 Exhausted = Exhausted"
  by (simp_all add: prefixed_def)

lemma write1_append: "write1 (w0 @ w) b = w0 @ write1 w b"
  by (simp add: write1_def)
lemma write2_append: "write2 (w0 @ w) b = w0 @ write2 w b"
  by (simp add: write2_def)
lemma write4_append: "write4 (w0 @ w) b = w0 @ write4 w b"
  by (simp add: write4_def)
lemma writeNumber_append: "writeNumber (w0 @ w) n = w0 @ writeNumber w n"
  by (simp add: writeNumber_def writeSmallInt_def writeInt_def write1_append write4_append Let_def)
lemma writeAtom_append: "writeAtom (w0 @ w) a = w0 @ writeAtom w a"
  by (simp add: writeAtom_def write1_append write2_append)
lemma writeString_append: "writeString (w0 @ w) a = w0 @ writeString w a"
  by (simp add: writeString_def write1_append write2_append)
lemma writeBinary_append: "writeBinary (w0 @ w) a = w0 @ writeBinary w a"
  by (simp add: writeBinary_def write1_append write4_append)
lemma writeBitstring_append: "writeBitstring (w0 @ w) a b = w0 @ writeBitstring w a b"
  by (simp add: writeBitstring_def write1_append write4_append Let_def)
lemma writeNil_append: "writeNil (w0 @ w) = w0 @ writeNil w"
  by (simp add: writeNil_def write1_append)
lemma writeFloat_append:
  "writeFloat sp (w0 @ w) f = (case writeFloat sp w f of Returns b \<Rightarrow> Returns (w0 @ b) | Panics \<Rightarrow> Panics | Exhausted \<Rightarrow> Exhausted)"
  by (simp add: writeFloat_def write1_append Let_def)

lemmas write_appends = write1_append write4_append writeNumber_append writeAtom_append
  writeString_append writeBinary_append writeBitstring_append writeNil_append

lemma writeTag_prefixed:
  "writeTag sp (w0 @ w) v = prefixed w0 (writeTag sp w v)"
  "writeKind sp (w0 @ w) v = prefixed w0 (writeKind sp w v)"
  "writeSmallTuple sp (w0 @ w) xs = prefixed w0 (writeSmallTuple sp w xs)"
  "writeList sp (w0 @ w) xs = prefixed w0 (writeList sp w xs)"
  "writeElems sp (w0 @ w) xs = prefixed w0 (writeElems sp w xs)"
proof (induction sp w v and sp w v and sp w xs and sp w xs and sp w xs
       arbitrary: w0 and w0 and w0 and w0 and w0
       rule: writeTag_writeKind_writeSmallTuple_writeList_writeElems.induct)
  case (1 sprintf w val)
  then show ?case by simp
next
  case (4 sprintf w f)
  then show ?case by (simp add: writeFloat_append split: outcome.splits)
next
  case (18 sprintf w t)
  then show ?case by (simp add: Let_def flip: write1_append)
next
  case (19 sprintf w l)
  have "writeElems sprintf (w0 @ write4 (write1 w ListTag) (of_int (int (length l)))) l
        = prefixed w0 (writeElems sprintf (write4 (write1 w ListTag) (of_int (int (length l)))) l)"
    using 19 by simp
  then show ?case
    by (simp add: Let_def write_appends split: outcome.splits prod.splits)
next
  case (21 sprintf w x xs)
  show ?case
  proof (cases "writeTag sprintf w x")
    case (Returns p)
    obtain w' e where p: "p = (w', e)" by (cases p)
    show ?thesis
    proof (cases e)
      case None
      with Returns p 21 show ?thesis by simp
    next
      case (Some a)
      with Returns p 21(1) show ?thesis by simp
    qed
  next
    case Panics
    with 21(1) show ?thesis by simp
  next
    case Exhausted
    with 21(1) show ?thesis by simp
  qed
qed (simp_all add: write_appends split: option.splits)

lemma wire_eq: "writeTag sp [] v = Returns (b, e) \<Longrightarrow> wire sp v = b"
  by (simp add: wire_def)

lemma writeTag_wire:
  assumes "writeTag sp [] v = Returns (b, e)"
  shows "writeTag sp w v = Returns (w @ wire sp v, e)"
  using writeTag_prefixed(1) [of sp w "[]" v] assms by (simp add: wire_def)

lemma writeElems_wire:
  assumes "\<forall>x\<in>set xs. writeTag sp [] x = Returns (wire sp x, None)"
  shows "writeElems sp w xs = Returns (w @ concat (map (wire sp) xs), None)"
  using assms
proof (induction xs arbitrary: w)
  case Nil
  show ?case by simp
next
  case (Cons x xs)
  have "writeTag sp w x = Returns (w @ wire sp x, None)"
    using Cons.prems by (intro writeTag_wire [of sp x "wire sp x"]) simp
  then show ?case using Cons by simp
qed

lemma canon_eq_VAtom: "canon x = VAtom a \<longleftrightarrow> x = VAtom a"
  by (cases x) auto

lemma tupleLoop_wire:
  assumes "\<forall>x\<in>set xs. x \<noteq> VAtom BertAtom \<and> (\<forall>r. rt (wire sp x @ r) = Returns ((canon x, None), r))"
  shows "tupleLoop rt (length xs) acc (concat (map (wire sp) xs) @ r)
         = Returns ((VSlice (acc @ map canon xs), None), r)"
  using assms
proof (induction xs arbitrary: acc)
  case Nil
  show ?case by simp
next
  case (Cons x xs)
  have x: "rt (wire sp x @ concat (map (wire sp) xs) @ r)
           = Returns ((canon x, None), concat (map (wire sp) xs) @ r)"
    using Cons.prems by simp
  have nb: "canon x \<noteq> VAtom BertAtom"
    using Cons.prems by (simp add: canon_eq_VAtom)
  show ?case
    using Cons.IH [of "acc @ [canon x]"] Cons.prems x nb by simp
qed

lemma listLoop_wire:
  assumes "\<forall>x\<in>set xs. \<forall>r. rt (wire sp x @ r) = Returns ((canon x, None), r)"
  shows "listLoop rt (length xs) acc (concat (map (wire sp) xs) @ r)
         = Returns ((acc @ map canon xs, None), r)"
  using assms
proof (induction xs arbitrary: acc)
  case Nil
  show ?case by simp
next
  case (Cons x xs)
  have x: "rt (wire sp x @ concat (map (wire sp) xs) @ r)
           = Returns ((canon x, None), concat (map (wire sp) xs) @ r)"
    using Cons.prems by simp
  show ?case
    using Cons.IH [of "acc @ [canon x]"] Cons.prems x by simp
qed

lemma length_wire_le_concat:
  "x \<in> set xs \<Longrightarrow> length (wire sp x) \<le> length (concat (map (wire sp) xs))"
  by (induction xs) auto

section \<open>Round trip\<close>

lemma wire_ok_leaf:
  assumes w: "writeTag sp [] v = Returns (b, None)"
    and ne: "b \<noteq> []"
    and rd: "\<And>k r. readTag pf (Suc k) (b @ r) = Returns ((canon v, None), r)"
  shows "wire_ok sp pf v"
proof -
  have eq: "wire sp v = b" using w by (rule wire_eq)
  have "readTag pf k (b @ r) = Returns ((canon v, None), r)" if "length b \<le> k" for k r
  proof -
    from that ne obtain k' where "k = Suc k'" by (cases k) auto
    then show ?thesis using rd by simp
  qed
  then show ?thesis unfolding wire_ok_def using w ne eq by simp
qed

lemma writeNumber_nonempty: "writeNumber [] n \<noteq> []"
  by (simp add: writeNumber_cases)

lemma wire_ok_write: "wire_ok sp pf v \<Longrightarrow> writeTag sp w v = Returns (w @ wire sp v, None)"
  unfolding wire_ok_def by (blast intro: writeTag_wire)

lemma wire_ok_read:
  "wire_ok sp pf v \<Longrightarrow> length (wire sp v) \<le> k \<Longrightarrow>
   readTag pf k (wire sp v @ r) = Returns ((canon v, None), r)"
  unfolding wire_ok_def by blast

lemma writeElems_ok:
  assumes "\<forall>x\<in>set xs. wire_ok sp pf x"
  shows "writeElems sp w xs = Returns (w @ concat (map (wire sp) xs), None)"
proof (rule writeElems_wire)
  show "\<forall>x\<in>set xs. writeTag sp [] x = Returns (wire sp x, None)"
    using assms unfolding wire_ok_def by blast
qed

lemma readTag_elems_ok:
  assumes ok: "\<forall>x\<in>set xs. wire_ok sp pf x"
    and len: "length (concat (map (wire sp) xs)) \<le> k"
  shows "\<forall>x\<in>set xs. \<forall>r. readTag pf k (wire sp x @ r) = Returns ((canon x, None), r)"
proof (intro ballI allI)
  fix x r assume x: "x \<in> set xs"
  then have "length (wire sp x) \<le> k"
    using length_wire_le_concat [OF x, of sp] len by simp
  then show "readTag pf k (wire sp x @ r) = Returns ((canon x, None), r)"
    using ok x by (blast intro: wire_ok_read)
qed

lemma wire_ok_list:
  assumes ok: "\<forall>x\<in>set xs. wire_ok sp pf x"
    and len: "length xs < 2147483648"
    and v: "Indirect v = v" "writeKind sp [] v = writeList sp [] xs" "canon v = VSlice (map canon xs)"
  shows "wire_ok sp pf v"
proof -
  let ?b = "ListTag # write4 [] (of_nat (length xs)) @ concat (map (wire sp) xs) @ [NilTag]"
  have w: "writeTag sp [] v = Returns (?b, None)"
    using v by (simp add: writeElems_ok [OF ok] Let_def write1_def writeNil_def write4_def)
  then have eq: "wire sp v = ?b" by (rule wire_eq)
  have rd: "readTag pf k (?b @ r) = Returns ((canon v, None), r)" if k: "length ?b \<le> k" for k r
  proof -
    from k obtain k' where k': "k = Suc k'" by (cases k) auto
    with k have "length (concat (map (wire sp) xs)) \<le> k'" by simp
    then have each: "\<forall>x\<in>set xs. \<forall>r. readTag pf k' (wire sp x @ r) = Returns ((canon x, None), r)"
      using ok by (intro readTag_elems_ok)
    have loop: "listLoop (readTag pf k') (length xs) [] (concat (map (wire sp) xs) @ NilTag # r)
          = Returns (([] @ map canon xs, None), NilTag # r)"
      using each by (rule listLoop_wire)
    show ?thesis
      using len loop v(3) by (simp add: k' readList_def sint32_of_nat)
  qed
  show ?thesis unfolding wire_ok_def eq using w rd by simp
qed

lemma wire_ok_tuple:
  assumes ok: "\<forall>x\<in>set xs. wire_ok sp pf x"
    and nb: "\<forall>x\<in>set xs. x \<noteq> VAtom BertAtom"
    and len: "length xs < 256"
  shows "wire_ok sp pf (VSlice xs)"
proof -
  let ?b = "SmallTupleTag # of_nat (length xs) # concat (map (wire sp) xs)"
  have w: "writeTag sp [] (VSlice xs) = Returns (?b, None)"
    by (simp add: writeElems_ok [OF ok] Let_def write1_def)
  then have eq: "wire sp (VSlice xs) = ?b" by (rule wire_eq)
  have rd: "readTag pf k (?b @ r) = Returns ((canon (VSlice xs), None), r)" if k: "length ?b \<le> k" for k r
  proof -
    from k obtain k' where k': "k = Suc k'" by (cases k) auto
    with k have "length (concat (map (wire sp) xs)) \<le> k'" by simp
    then have each: "\<forall>x\<in>set xs. \<forall>r. readTag pf k' (wire sp x @ r) = Returns ((canon x, None), r)"
      using ok by (intro readTag_elems_ok)
    have loop: "tupleLoop (readTag pf k') (length xs) [] (concat (map (wire sp) xs) @ r)
          = Returns ((VSlice ([] @ map canon xs), None), r)"
      using each nb by (intro tupleLoop_wire) blast
    show ?thesis
      using len loop by (simp add: k' readSmallTuple_def uint8_of_nat)
  qed
  show ?thesis unfolding wire_ok_def eq using w rd by simp
qed

lemma representable_wire_ok: "representable sp pf v \<Longrightarrow> wire_ok sp pf v"
proof (induction v)
  case (VInt n)
  show ?case
  proof (rule wire_ok_leaf)
    show "writeTag sp [] (VInt n) = Returns (writeNumber [] (sint n), None)" by simp
    show "writeNumber [] (sint n) \<noteq> []" by (rule writeNumber_nonempty)
    show "readTag pf (Suc k) (writeNumber [] (sint n) @ r) = Returns ((canon (VInt n), None), r)" for k r
      using VInt readTag_writeNumber [of "sint n" pf k r] by simp
  qed
next
  case (VUint n)
  show ?case
  proof (rule wire_ok_leaf)
    show "writeTag sp [] (VUint n) = Returns (writeNumber [] (uint n), None)" by simp
    show "writeNumber [] (uint n) \<noteq> []" by (rule writeNumber_nonempty)
    show "readTag pf (Suc k) (writeNumber [] (uint n) @ r) = Returns ((canon (VUint n), None), r)" for k r
    proof -
      have "0 \<le> uint n" by simp
      then have "- 2147483648 \<le> uint n" by linarith
      then show ?thesis
        using VUint readTag_writeNumber [of "uint n" pf k r] by simp
    qed
  qed
next
  case (VBigInt n)
  show ?case
  proof (rule wire_ok_leaf)
    show "writeTag sp [] (VBigInt n) = Returns (writeNumber [] n, None)" by simp
    show "writeNumber [] n \<noteq> []" by (rule writeNumber_nonempty)
    show "readTag pf (Suc k) (writeNumber [] n @ r) = Returns ((canon (VBigInt n), None), r)" for k r
      using VBigInt readTag_writeNumber [of n pf k r] by simp
  qed
next
  case (VFloat f)
  show ?case
  proof (rule wire_ok_leaf)
    show "writeTag sp [] (VFloat f)
        = Returns (FloatTag # sp f @ replicate (31 - length (sp f)) 0, None)"
      using VFloat by (simp add: writeFloat_def write1_def Let_def)
    show "FloatTag # sp f @ replicate (31 - length (sp f)) 0 \<noteq> []" by simp
    show "readTag pf (Suc k) ((FloatTag # sp f @ replicate (31 - length (sp f)) 0) @ r)
        = Returns ((canon (VFloat f), None), r)" for k r
      using VFloat readTag_writeFloat [of "sp f" pf f k r] by simp
  qed
next
  case (VAtom a)
  show ?case
  proof (rule wire_ok_leaf)
    show "writeTag sp [] (VAtom a) = Returns (writeAtom [] a, None)" by simp
    show "writeAtom [] a \<noteq> []" by (simp add: writeAtom_wire)
    show "readTag pf (Suc k) (writeAtom [] a @ r) = Returns ((canon (VAtom a), None), r)" for k r
      using VAtom readTag_writeAtom [of a pf k r] by simp
  qed
next
  case (VString a)
  show ?case
  proof (rule wire_ok_leaf)
    show "writeTag sp [] (VString a) = Returns (writeString [] a, None)" by simp
    show "writeString [] a \<noteq> []" by (simp add: writeString_wire)
    show "readTag pf (Suc k) (writeString [] a @ r) = Returns ((canon (VString a), None), r)" for k r
      using VString readTag_writeString [of a pf k r] by simp
  qed
next
  case (VBytes a)
  show ?case
  proof (rule wire_ok_leaf)
    show "writeTag sp [] (VBytes a) = Returns (writeBinary [] a, None)" by simp
    show "writeBinary [] a \<noteq> []" by (simp add: writeBinary_wire)
    show "readTag pf (Suc k) (writeBinary [] a @ r) = Returns ((canon (VBytes a), None), r)" for k r
      using VBytes readTag_writeBinary [of a pf k r] by simp
  qed
next
  case (VBitstring bytes bits)
  show ?case
  proof (cases "bits mod 8 = 0")
    case True
    with VBitstring have fits: "unat (bits div 8) \<le> length bytes" by simp
    show ?thesis
    proof (rule wire_ok_leaf)
      show "writeTag sp [] (VBitstring bytes bits)
          = Returns (writeBinary [] (take (unat (bits div 8)) bytes), None)"
        using True fits by simp
      show "writeBinary [] (take (unat (bits div 8)) bytes) \<noteq> []" by (simp add: writeBinary_wire)
      have "unat (bits div 8) < 256" using unsigned_less [of "bits div 8", where 'a = nat] by simp
      then have "length (take (unat (bits div 8)) bytes) < 2147483648" by simp
      then show "readTag pf (Suc k) (writeBinary [] (take (unat (bits div 8)) bytes) @ r)
          = Returns ((canon (VBitstring bytes bits), None), r)" for k r
        using True readTag_writeBinary [of "take (unat (bits div 8)) bytes" pf k r] by simp
    qed
  next
    case False
    show ?thesis
    proof (rule wire_ok_leaf)
      show "writeTag sp [] (VBitstring bytes bits) = Returns (writeBitstring [] bytes bits, None)"
        using False by simp
      show "writeBitstring [] bytes bits \<noteq> []" by (simp add: writeBitstring_wire)
      show "readTag pf (Suc k) (writeBitstring [] bytes bits @ r)
          = Returns ((canon (VBitstring bytes bits), None), r)" for k r
        using False readTag_writeBitstring [of pf k bytes bits r] by simp
    qed
  qed
next
  case (VSlice xs)
  show ?case
  proof (rule wire_ok_tuple)
    show "\<forall>x\<in>set xs. wire_ok sp pf x" using VSlice by (simp add: list_all_iff)
    show "\<forall>x\<in>set xs. x \<noteq> VAtom BertAtom" using VSlice by (simp add: list_all_iff)
    show "length xs < 256" using VSlice by simp
  qed
next
  case (VArray xs)
  show ?case
  proof (rule wire_ok_list)
    show "\<forall>x\<in>set xs. wire_ok sp pf x" using VArray by (simp add: list_all_iff)
    show "length xs < 2147483648" using VArray by simp
  qed simp_all
next
  case (VList xs)
  show ?case
  proof (rule wire_ok_list)
    show "\<forall>x\<in>set xs. wire_ok sp pf x" using VList by (simp add: list_all_iff)
    show "length xs < 2147483648" using VList by simp
  qed simp_all
qed simp_all

lemma Encode_wire_ok:
  assumes "wire_ok sp pf x"
  shows "Encode sp x = Returns (VersionTag # wire sp x, None)"
    and "Decode pf (VersionTag # wire sp x) = Returns (canon x, None)"
    and "DecodeFrom pf (VersionTag # wire sp x) = Returns ((canon x, None), [])"
proof -
  show "Encode sp x = Returns (VersionTag # wire sp x, None)"
    using wire_ok_write [OF assms, of "[VersionTag]"]
    by (simp add: Encode_def EncodeTo_def write1_def del: writeTag.simps)
  have "readTag pf (Suc (length (wire sp x))) (wire sp x @ []) = Returns ((canon x, None), [])"
    using assms by (intro wire_ok_read) simp_all
  then show d: "DecodeFrom pf (VersionTag # wire sp x) = Returns ((canon x, None), [])"
    by (simp add: DecodeFrom_def del: readTag.simps)
  show "Decode pf (VersionTag # wire sp x) = Returns (canon x, None)"
    by (simp add: Decode_def d)
qed






section \<open>Frames\<close>

text \<open>
  C9, as stated. A \<^verbatim>\<open>Request\<close> struct given to \<^verbatim>\<open>MarshalResponse\<close> is an unknown type: the
  frame holds the version byte alone, and \<^verbatim>\<open>UnmarshalRequest\<close> panics on it. Given as the
  tuple of its four fields, a request of kind \<open>bert\<close> with an empty module comes back as
  the zero \<^verbatim>\<open>Request\<close>.
\<close>

theorem frame_roundtrip_fails:
  "MarshalResponse (\<lambda>_. []) [] (VRequest [99] [109] [102] []) = Returns ([0, 0, 0, 1, 131], Some ErrUnknownType)
   \<and> UnmarshalRequest (\<lambda>_. None) [0, 0, 0, 1, 131] = Panics
   \<and> MarshalResponse (\<lambda>_. []) [] (VSlice [VAtom [98, 101, 114, 116], VAtom [], VAtom [102], VSlice []])
       = Returns ([0, 0, 0, 19, 131, 104, 4, 100, 0, 4, 98, 101, 114, 116, 100, 0, 0,
                   100, 0, 1, 102, 104, 0], None)
   \<and> UnmarshalRequest (\<lambda>_. None) [0, 0, 0, 19, 131, 104, 4, 100, 0, 4, 98, 101, 114, 116, 100, 0, 0,
                   100, 0, 1, 102, 104, 0]
       = Returns (\<lparr>Kind = [], Module = [], Function = [], Arguments = []\<rparr>, None)"
  by code_simp

lemma LimitReader_append [simp]: "LimitReader (a @ r) (int (length a)) = a"
  by (simp add: LimitReader_def)

text \<open>
  C9, amended. Let a request be given as the tuple of its four fields, the first three
  atoms shorter than 65536 bytes and different from \<open>bert\<close>, the fourth a tuple of fewer
  than 256 representable values none of which is the atom \<open>bert\<close>, and let its encoding be
  shorter than \<open>2^31\<close> bytes. Then the frame is the encoding behind a 4-byte prefix that
  reads back as the exact length of the encoding, and \<^verbatim>\<open>UnmarshalRequest\<close> returns the
  request with these fields, the arguments in the decoder's shape, whatever follows the
  frame in the stream.
\<close>

theorem frame_roundtrip:
  assumes rep: "representable sprintf parseFloat (VSlice [VAtom k, VAtom m, VAtom f, VSlice args])"
    and enc: "Encode sprintf (VSlice [VAtom k, VAtom m, VAtom f, VSlice args]) = Returns (body, err)"
    and size: "length body < 2147483648"
  shows "MarshalResponse sprintf [] (VSlice [VAtom k, VAtom m, VAtom f, VSlice args])
           = Returns (write4 [] (of_nat (length body)) @ body, None)
         \<and> read4 (write4 [] (of_nat (length body)) @ body @ rest)
           = Returns (int (length body), body @ rest)
         \<and> UnmarshalRequest parseFloat (write4 [] (of_nat (length body)) @ body @ rest)
           = Returns (\<lparr>Kind = k, Module = m, Function = f, Arguments = map canon args\<rparr>, None)"
proof -
  let ?t = "VSlice [VAtom k, VAtom m, VAtom f, VSlice args]"
  have ok: "wire_ok sprintf parseFloat ?t" using rep by (rule representable_wire_ok)
  have body: "body = VersionTag # wire sprintf ?t" and err: "err = None"
    using Encode_wire_ok(1) [OF ok] enc by simp_all
  have m: "MarshalResponse sprintf [] ?t = Returns (write4 [] (of_nat (length body)) @ body, None)"
    using enc err by (simp add: MarshalResponse_def write4_def)
  have r: "read4 (write4 [] (of_nat (length body)) @ body @ rest) = Returns (int (length body), body @ rest)"
    using size by (simp add: sint32_of_nat)
  have d: "DecodeFrom parseFloat body
      = Returns ((VSlice [VAtom k, VAtom m, VAtom f, VSlice (map canon args)], None), [])"
    using Encode_wire_ok(3) [OF ok] body by simp
  have u: "UnmarshalRequest parseFloat (write4 [] (of_nat (length body)) @ body @ rest)
      = Returns (\<lparr>Kind = k, Module = m, Function = f, Arguments = map canon args\<rparr>, None)"
    using size
    by (simp add: UnmarshalRequest_def sint32_of_nat UnmarshalFrom_def d FieldSet_def zeroRequest_def)
  from m r u show ?thesis by blast
qed

theorem frame_roundtrip_witness:
  "representable (\<lambda>_. []) (\<lambda>_. None) (VSlice [VAtom [99], VAtom [109], VAtom [102], VSlice [VInt 5, VString [7]]])
   \<and> Encode (\<lambda>_. []) (VSlice [VAtom [99], VAtom [109], VAtom [102], VSlice [VInt 5, VString [7]]])
       = Returns ([131, 104, 4, 100, 0, 1, 99, 100, 0, 1, 109, 100, 0, 1, 102,
                   104, 2, 97, 5, 107, 0, 1, 7], None)
   \<and> MarshalResponse (\<lambda>_. []) [] (VSlice [VAtom [99], VAtom [109], VAtom [102], VSlice [VInt 5, VString [7]]])
       = Returns ([0, 0, 0, 23, 131, 104, 4, 100, 0, 1, 99, 100, 0, 1, 109, 100, 0, 1, 102,
                   104, 2, 97, 5, 107, 0, 1, 7], None)
   \<and> UnmarshalRequest (\<lambda>_. None) [0, 0, 0, 23, 131, 104, 4, 100, 0, 1, 99, 100, 0, 1, 109, 100, 0, 1, 102,
                   104, 2, 97, 5, 107, 0, 1, 7]
       = Returns (\<lparr>Kind = [99], Module = [109], Function = [102], Arguments = [VInt 5, VString [7]]\<rparr>, None)"
proof -
  let ?t = "VSlice [VAtom [99], VAtom [109], VAtom [102], VSlice [VInt 5, VString [7]]]"
  let ?body = "[131, 104, 4, 100, 0, 1, 99, 100, 0, 1, 109, 100, 0, 1, 102,
                   104, 2, 97, 5, 107, 0, 1, 7] :: byte list"
  have r: "representable (\<lambda>_. []) (\<lambda>_. None) ?t" by (simp add: BertAtom_def)
  have e: "Encode (\<lambda>_. []) ?t = Returns (?body, None)" by code_simp
  have s: "length ?body < 2147483648" by simp
  have p: "write4 [] (of_nat (length ?body)) = [0, 0, 0, 23]" by (simp add: write4_def)
  from frame_roundtrip [OF r e s, where rest = "[]"] r e show ?thesis
    unfolding p by simp
qed

section \<open>The \<open>bert\<close> tuple and the length fields\<close>

lemma read2_Cons2:
  "read2 (b0 # b1 # r) = Returns (uint (ucast b1 OR push_bit 8 (ucast b0) :: 16 word), r)"
  by (simp add: read2_def ReadAllLimit_def)

lemma readTag_bert_atom:
  "readTag pf (Suc k) ([AtomTag, 0, 4] @ BertAtom @ rest) = Returns ((VAtom BertAtom, None), rest)"
  by (simp add: readAtom_def readString_def read2_Cons2 ReadAllLimit_def BertAtom_def)

text \<open>
  C8. In a small tuple of arity at least 1 whose first element is the atom \<open>bert\<close>, the
  next element is decoded and is the result of the whole tuple, where the atoms \<open>nil\<close>,
  \<open>true\<close> and \<open>false\<close> become the nil value and the booleans.
\<close>

theorem readTag_bert_tuple:
  assumes "n \<noteq> 0"
    and "readTag parseFloat (Suc k) rest = Returns ((t, None), r')"
  shows "readTag parseFloat (Suc (Suc k)) ([SmallTupleTag, n, AtomTag, 0, 4] @ BertAtom @ rest)
         = Returns ((if t = VAtom NilAtom then VNil
                     else if t = VAtom TrueAtom then VBool True
                     else if t = VAtom FalseAtom then VBool False
                     else t, None), r')"
proof -
  from assms(1) have "0 < unat n" by (simp add: unat_gt_0)
  then obtain j where j: "unat n = Suc j"
    by (cases "unat n") simp_all
  have atom: "readTag parseFloat (Suc k) (AtomTag # 0 # 4 # BertAtom @ rest)
      = Returns ((VAtom BertAtom, None), rest)"
    using readTag_bert_atom [of parseFloat k rest] by simp
  have cx: "readComplex (readTag parseFloat (Suc k)) rest
      = Returns ((if t = VAtom NilAtom then VNil
                     else if t = VAtom TrueAtom then VBool True
                     else if t = VAtom FalseAtom then VBool False
                     else t, None), r')"
    using assms(2)
    by (cases t) (simp_all add: readComplex_def NilAtom_def TrueAtom_def FalseAtom_def del: readTag.simps)
  have "readTag parseFloat (Suc (Suc k)) (SmallTupleTag # n # AtomTag # 0 # 4 # BertAtom @ rest)
      = tupleLoop (readTag parseFloat (Suc k)) (Suc j) [] (AtomTag # 0 # 4 # BertAtom @ rest)"
    by (subst readTag.simps) (simp add: readSmallTuple_def j del: readTag.simps)
  also have "\<dots> = readComplex (readTag parseFloat (Suc k)) rest"
    by (simp add: atom del: readTag.simps)
  finally show ?thesis using cx by simp
qed

theorem readTag_bert_tuple_witness:
  "(2 :: byte) \<noteq> 0
   \<and> readTag (\<lambda>_. None) (Suc 0) [100, 0, 4, 116, 114, 117, 101] = Returns ((VAtom TrueAtom, None), [])
   \<and> readTag (\<lambda>_. None) (Suc (Suc 0)) ([104, 2, 100, 0, 4] @ BertAtom @ [100, 0, 4, 116, 114, 117, 101])
       = Returns ((VBool True, None), [])
   \<and> Decode (\<lambda>_. None) [131, 104, 2, 100, 0, 4, 98, 101, 114, 116, 100, 0, 3, 110, 105, 108]
       = Returns (VNil, None)
   \<and> Decode (\<lambda>_. None) [131, 104, 2, 100, 0, 4, 98, 101, 114, 116, 100, 0, 5, 102, 97, 108, 115, 101]
       = Returns (VBool False, None)
   \<and> Decode (\<lambda>_. None) [131, 104, 2, 100, 0, 4, 98, 101, 114, 116, 100, 0, 3, 102, 111, 111]
       = Returns (VAtom [102, 111, 111], None)"
proof -
  have n: "(2 :: byte) \<noteq> 0" by simp
  have h: "readTag (\<lambda>_. None) (Suc 0) [100, 0, 4, 116, 114, 117, 101] = Returns ((VAtom TrueAtom, None), [])"
    by code_simp
  have d1: "Decode (\<lambda>_. None) [131, 104, 2, 100, 0, 4, 98, 101, 114, 116, 100, 0, 3, 110, 105, 108]
       = Returns (VNil, None)" by code_simp
  have d2: "Decode (\<lambda>_. None) [131, 104, 2, 100, 0, 4, 98, 101, 114, 116, 100, 0, 5, 102, 97, 108, 115, 101]
       = Returns (VBool False, None)" by code_simp
  have d3: "Decode (\<lambda>_. None) [131, 104, 2, 100, 0, 4, 98, 101, 114, 116, 100, 0, 3, 102, 111, 111]
       = Returns (VAtom [102, 111, 111], None)" by code_simp
  from readTag_bert_tuple [OF n h] n h d1 d2 d3 show ?thesis
    by (simp add: TrueAtom_def NilAtom_def del: readTag.simps)
qed



section \<open>The depth bound is never reached\<close>

text \<open>
  \<^verbatim>\<open>readTag\<close> reads a tag byte before it calls itself, so with a depth bound above the
  number of bytes left it never answers \<open>Exhausted\<close>: the entry points always return or
  panic, as the Go functions do. The encoder recurses on the value and has no bound.
\<close>

lemma bounded_readerI:
  assumes "\<And>r. length r < m \<Longrightarrow> rd r \<noteq> Exhausted"
    and "\<And>r x r'. length r < m \<Longrightarrow> rd r = Returns (x, r') \<Longrightarrow> length r' \<le> length r"
  shows "bounded_reader m rd"
  using assms unfolding bounded_reader_def by blast

lemma bounded_readerD:
  assumes "bounded_reader m rd" "length r < m"
  shows "rd r \<noteq> Exhausted" and "rd r = Returns (x, r') \<Longrightarrow> length r' \<le> length r"
  using assms unfolding bounded_reader_def by blast+

lemma ReadAllLimit_length: "ReadAllLimit r n = (bits, r') \<Longrightarrow> length r' \<le> length r"
  by (auto simp: ReadAllLimit_def split: if_splits)

lemma read1_bounded: "read1 r \<noteq> Exhausted" "read1 r = Returns (x, r') \<Longrightarrow> length r' < length r"
  by (cases r; simp add: read1_def ReadAllLimit_def; fastforce)+

lemma read2_bounded: "read2 r \<noteq> Exhausted" "read2 r = Returns (x, r') \<Longrightarrow> length r' \<le> length r"
  by (auto simp: read2_def ReadAllLimit_def Let_def split: list.splits if_splits)

lemma read4_bounded: "read4 r \<noteq> Exhausted" "read4 r = Returns (x, r') \<Longrightarrow> length r' \<le> length r"
  by (auto simp: read4_def ReadAllLimit_def Let_def split: list.splits if_splits)

lemma andThen_cases:
  "andThen m f = Returns y \<longleftrightarrow> (\<exists>x. m = Returns x \<and> f x = Returns y)"
  "andThen m f = Exhausted \<longleftrightarrow> m = Exhausted \<or> (\<exists>x. m = Returns x \<and> f x = Exhausted)"
  by (cases m; simp add: andThen_def)+

lemma readString_bounded:
  "readString r \<noteq> Exhausted" "readString r = Returns (x, r') \<Longrightarrow> length r' \<le> length r"
  using read2_bounded
  by (fastforce simp: readString_def andThen_cases ReadAllLimit_def split: prod.splits if_splits)+

lemma readBin_bounded:
  "readBin r \<noteq> Exhausted" "readBin r = Returns (x, r') \<Longrightarrow> length r' \<le> length r"
  using read4_bounded
  by (fastforce simp: readBin_def andThen_cases ReadAllLimit_def split: prod.splits if_splits)+


lemma ReadAllLimit_snd_length: "length (snd (ReadAllLimit r n)) \<le> length r"
  by (simp add: ReadAllLimit_def)

lemma readBit_bounded:
  "readBit r \<noteq> Exhausted" "readBit r = Returns (x, r') \<Longrightarrow> length r' \<le> length r"
proof -
  show "readBit r \<noteq> Exhausted"
    using read4_bounded(1) read1_bounded(1)
    by (auto simp: readBit_def andThen_cases split: prod.splits)
  show "length r' \<le> length r" if "readBit r = Returns (x, r')"
  proof -
    from that obtain sz r1 bits r2 where
      a: "read4 r = Returns (sz, r1)" and b: "read1 r1 = Returns (bits, r2)"
      and c: "r' = snd (ReadAllLimit r2 sz)"
      by (auto simp: readBit_def andThen_cases case_prod_beta)
    from read4_bounded(2) [OF a] read1_bounded(2) [OF b] ReadAllLimit_snd_length [of r2 sz] c
    show ?thesis by simp
  qed
qed

lemma readFloat_bounded:
  "readFloat pf r \<noteq> Exhausted" "readFloat pf r = Returns (x, r') \<Longrightarrow> length r' \<le> length r"
  by (auto simp: readFloat_def ReadAllLimit_def split: prod.splits option.splits if_splits)

lemma readNil_bounded:
  "readNil r \<noteq> Exhausted" "readNil r = Returns (x, r') \<Longrightarrow> length r' \<le> length r"
  by (auto simp: readNil_def ReadAllLimit_def split: prod.splits if_splits)

lemma readComplex_bounded:
  assumes "bounded_reader m rt"
  shows "bounded_reader m (readComplex rt)"
proof (rule bounded_readerI)
  fix r :: reader assume r: "length r < m"
  show "readComplex rt r \<noteq> Exhausted"
    using bounded_readerD(1) [OF assms r]
    by (auto simp: readComplex_def andThen_cases split: prod.splits option.splits val.splits)
  fix x r' assume "readComplex rt r = Returns (x, r')"
  then obtain y where "rt r = Returns (y, r')"
    by (auto simp: readComplex_def andThen_cases split: prod.splits option.splits val.splits if_splits)
  then show "length r' \<le> length r"
    by (rule bounded_readerD(2) [OF assms r])
qed

lemma tupleLoop_bounded:
  assumes rt: "bounded_reader m rt"
  shows "bounded_reader m (tupleLoop rt n tuple)"
proof (induction n arbitrary: tuple)
  case 0
  show ?case by (rule bounded_readerI) simp_all
next
  case (Suc n)
  show ?case
  proof (rule bounded_readerI)
    fix r :: reader assume r: "length r < m"
    note here = bounded_readerD [OF rt r]
    show "tupleLoop rt (Suc n) tuple r \<noteq> Exhausted"
    proof (cases "rt r")
      case (Returns p)
      obtain t err r1 where p: "p = ((t, err), r1)" by (cases p) auto
      have r1: "length r1 < m" using here(2) [of "(t, err)" r1] Returns p r by simp
      show ?thesis
        using Returns p bounded_readerD(1) [OF readComplex_bounded [OF rt] r1]
          bounded_readerD(1) [OF Suc.IH r1]
        by (simp add: andThen_def split: option.splits)
    next
      case Panics
      then show ?thesis by (simp add: andThen_def)
    next
      case Exhausted
      with here(1) show ?thesis by simp
    qed
    fix x r' assume res: "tupleLoop rt (Suc n) tuple r = Returns (x, r')"
    then obtain t err r1 where step: "rt r = Returns ((t, err), r1)"
      by (auto simp: andThen_cases)
    have le: "length r1 \<le> length r" using here(2) [OF step] .
    then have r1: "length r1 < m" using r by simp
    show "length r' \<le> length r"
    proof (cases err)
      case (Some e)
      with res step le show ?thesis by (simp add: andThen_def)
    next
      case None
      show ?thesis
      proof (cases "t = VAtom BertAtom")
        case True
        with res step None have "readComplex rt r1 = Returns (x, r')" by (simp add: andThen_def)
        from bounded_readerD(2) [OF readComplex_bounded [OF rt] r1 this] le show ?thesis by simp
      next
        case False
        with res step None have "tupleLoop rt n (tuple @ [t]) r1 = Returns (x, r')"
          by (simp add: andThen_def)
        from bounded_readerD(2) [OF Suc.IH r1 this] le show ?thesis by simp
      qed
    qed
  qed
qed

lemma listLoop_bounded:
  assumes rt: "bounded_reader m rt"
  shows "bounded_reader m (listLoop rt n list)"
proof (induction n arbitrary: list)
  case 0
  show ?case by (rule bounded_readerI) simp_all
next
  case (Suc n)
  show ?case
  proof (rule bounded_readerI)
    fix r :: reader assume r: "length r < m"
    note here = bounded_readerD [OF rt r]
    show "listLoop rt (Suc n) list r \<noteq> Exhausted"
    proof (cases "rt r")
      case (Returns p)
      obtain t err r1 where p: "p = ((t, err), r1)" by (cases p) auto
      have r1: "length r1 < m" using here(2) [of "(t, err)" r1] Returns p r by simp
      show ?thesis
        using Returns p bounded_readerD(1) [OF Suc.IH r1]
        by (simp add: andThen_def split: option.splits)
    next
      case Panics
      then show ?thesis by (simp add: andThen_def)
    next
      case Exhausted
      with here(1) show ?thesis by simp
    qed
    fix x r' assume res: "listLoop rt (Suc n) list r = Returns (x, r')"
    then obtain t err r1 where step: "rt r = Returns ((t, err), r1)"
      by (auto simp: andThen_cases)
    have le: "length r1 \<le> length r" using here(2) [OF step] .
    then have r1: "length r1 < m" using r by simp
    show "length r' \<le> length r"
    proof (cases err)
      case (Some e)
      with res step le show ?thesis by (simp add: andThen_def)
    next
      case None
      with res step have "listLoop rt n (list @ [t]) r1 = Returns (x, r')"
        by (simp add: andThen_def)
      from bounded_readerD(2) [OF Suc.IH r1 this] le show ?thesis by simp
    qed
  qed
qed

lemma readSmallTuple_bounded:
  assumes rt: "bounded_reader m rt"
  shows "bounded_reader (Suc m) (readSmallTuple rt)"
proof (rule bounded_readerI)
  fix r :: reader assume r: "length r < Suc m"
  show "readSmallTuple rt r \<noteq> Exhausted"
  proof (cases "read1 r")
    case (Returns p)
    obtain sz r1 where p: "p = (sz, r1)" by (cases p)
    have "length r1 < m" using read1_bounded(2) [of r sz r1] Returns p r by simp
    then show ?thesis
      using Returns p bounded_readerD(1) [OF tupleLoop_bounded [OF rt]]
      by (simp add: readSmallTuple_def andThen_def)
  next
    case Panics
    then show ?thesis by (simp add: readSmallTuple_def andThen_def)
  next
    case Exhausted
    then show ?thesis using read1_bounded(1) by simp
  qed
  fix x r' assume res: "readSmallTuple rt r = Returns (x, r')"
  then obtain sz r1 where a: "read1 r = Returns (sz, r1)"
    and b: "tupleLoop rt (nat sz) [] r1 = Returns (x, r')"
    by (auto simp: readSmallTuple_def andThen_cases)
  have lt: "length r1 < length r" using read1_bounded(2) [OF a] .
  then have "length r1 < m" using r by simp
  from bounded_readerD(2) [OF tupleLoop_bounded [OF rt] this b] lt
  show "length r' \<le> length r" by simp
qed

lemma readList_bounded:
  assumes rt: "bounded_reader m rt"
  shows "bounded_reader m (readList rt)"
proof (rule bounded_readerI)
  fix r :: reader assume r: "length r < m"
  show "readList rt r \<noteq> Exhausted"
  proof (cases "read4 r")
    case (Returns p)
    obtain sz r1 where p: "p = (sz, r1)" by (cases p)
    have r1: "length r1 < m" using read4_bounded(2) [of r sz r1] Returns p r by simp
    show ?thesis
    proof (cases "listLoop rt (nat sz) [] r1")
      case inner: (Returns q)
      obtain l err r2 where q: "q = ((l, err), r2)" by (cases q) auto
      show ?thesis
        using Returns p inner q read1_bounded(1) [of r2]
        by (simp add: readList_def andThen_cases split: option.splits)
    next
      case Panics
      with Returns p show ?thesis by (simp add: readList_def andThen_def)
    next
      case Exhausted
      with bounded_readerD(1) [OF listLoop_bounded [OF rt] r1] show ?thesis by simp
    qed
  next
    case Panics
    then show ?thesis by (simp add: readList_def andThen_def)
  next
    case Exhausted
    then show ?thesis using read4_bounded(1) by simp
  qed
  fix x r' assume res: "readList rt r = Returns (x, r')"
  then obtain sz r1 where a: "read4 r = Returns (sz, r1)"
    and rest: "\<not> sz < 0"
      "andThen (listLoop rt (nat sz) [] r1) (\<lambda>((list, err), r2).
         case err of
           Some e \<Rightarrow> Returns (([], Some e), r2)
         | None \<Rightarrow> andThen (read1 r2) (\<lambda>(_, r3). Returns ((list, None), r3))) = Returns (x, r')"
    by (auto simp: readList_def andThen_cases split: if_splits)
  from rest(2) obtain l err r2 where b: "listLoop rt (nat sz) [] r1 = Returns ((l, err), r2)"
    and c: "(case err of
           Some e \<Rightarrow> Returns (([], Some e), r2)
         | None \<Rightarrow> andThen (read1 r2) (\<lambda>(_, r3). Returns ((l, None), r3))) = Returns (x, r')"
    by (auto simp: andThen_cases)
  have le1: "length r1 \<le> length r" using read4_bounded(2) [OF a] .
  then have "length r1 < m" using r by simp
  from bounded_readerD(2) [OF listLoop_bounded [OF rt] this b]
  have le2: "length r2 \<le> length r1" .
  have "length r' \<le> length r2"
    using c read1_bounded(2) [of r2]
    by (cases err) (fastforce simp: andThen_cases)+
  with le1 le2 show "length r' \<le> length r" by simp
qed

lemma within_Returns [simp]: "within n (Returns (x, r')) \<longleftrightarrow> length r' \<le> n"
  by (simp add: within_def)

lemma within_Panics [simp]: "within n Panics"
  by (simp add: within_def)

lemma within_wrap:
  assumes "rd \<noteq> Exhausted" "\<And>y r'. rd = Returns (y, r') \<Longrightarrow> length r' \<le> n"
  shows "within n (andThen rd (\<lambda>(y, r2). Returns (g y, r2)))"
  using assms by (auto simp: within_def andThen_cases)

lemma within_bounded: "bounded_reader m rd \<Longrightarrow> length r < m \<Longrightarrow> within (length r) (rd r)"
  by (simp add: within_def bounded_reader_def)

lemma readTag_bounded: "bounded_reader k (readTag pf k)"
proof (induction k)
  case 0
  show ?case by (rule bounded_readerI) simp_all
next
  case (Suc k)
  note tup = readSmallTuple_bounded [OF Suc]
  note lst = readList_bounded [OF Suc]
  have step: "within (length r1) (readTag pf (Suc k) (b # r1))" if r1: "length r1 < k" for b r1
  proof -
    have i: "within (length r1) (andThen (read1 r1) (\<lambda>(n, r2). Returns ((VInt (of_int n), None), r2)))"
      using read1_bounded [of r1] by (intro within_wrap) auto
    have j: "within (length r1) (andThen (read4 r1) (\<lambda>(n, r2). Returns ((VInt (of_int n), None), r2)))"
      using read4_bounded [of r1] by (intro within_wrap) auto
    have f: "within (length r1) (andThen (readFloat pf r1) (\<lambda>((f, err), r2). Returns ((VFloat f, err), r2)))"
      using readFloat_bounded [of pf r1] by (auto simp: within_def andThen_cases)
    have a: "within (length r1) (andThen (readString r1) (\<lambda>(a, r2). Returns ((VAtom a, None), r2)))"
      using readString_bounded [of r1] by (intro within_wrap) auto
    have s: "within (length r1) (andThen (readString r1) (\<lambda>(a, r2). Returns ((VString a, None), r2)))"
      using readString_bounded [of r1] by (intro within_wrap) auto
    have n: "within (length r1) (andThen (readNil r1) (\<lambda>(l, r2). Returns ((VSlice l, None), r2)))"
      using readNil_bounded [of r1] by (intro within_wrap) auto
    have bn: "within (length r1) (andThen (readBin r1) (\<lambda>(b, r2). Returns ((VBytes b, None), r2)))"
      using readBin_bounded [of r1] by (intro within_wrap) auto
    have bt: "within (length r1) (andThen (readBit r1) (\<lambda>(b, r2). Returns ((b, None), r2)))"
      using readBit_bounded [of r1] by (intro within_wrap) auto
    have t: "within (length r1) (readSmallTuple (readTag pf k) r1)"
      using within_bounded [OF tup, of r1] r1 by simp
    have l: "within (length r1) (andThen (readList (readTag pf k) r1) (\<lambda>((l, err), r2). Returns ((VSlice l, err), r2)))"
      using bounded_readerD [OF lst r1] by (auto simp: within_def andThen_cases)
    show ?thesis
      unfolding readTag.simps read1_Cons andThen_Returns prod.case readSmallInt_def readInt_def readAtom_def
      by (simp add: i j f a s n bn bt t l del: readTag.simps)
  qed
  show ?case
  proof (rule bounded_readerI)
    fix r :: reader assume r: "length r < Suc k"
    show "readTag pf (Suc k) r \<noteq> Exhausted"
    proof (cases r)
      case Nil
      then show ?thesis by simp
    next
      case (Cons b r1)
      with r step [of r1 b] show ?thesis by (simp add: within_def del: readTag.simps)
    qed
    fix x r' assume res: "readTag pf (Suc k) r = Returns (x, r')"
    show "length r' \<le> length r"
    proof (cases r)
      case Nil
      with res show ?thesis by simp
    next
      case (Cons b r1)
      with r res step [of r1 b] show ?thesis by (simp add: within_def del: readTag.simps)
    qed
  qed
qed

lemma DecodeFrom_total: "DecodeFrom pf r \<noteq> Exhausted"
proof (cases r)
  case Nil
  then show ?thesis by (simp add: DecodeFrom_def)
next
  case (Cons b r1)
  have "readTag pf (Suc (length r1)) r1 \<noteq> Exhausted"
    using bounded_readerD(1) [OF readTag_bounded, of r1 "Suc (length r1)" pf] by simp
  with Cons show ?thesis by (simp add: DecodeFrom_def del: readTag.simps)
qed

lemma Decode_total: "Decode pf data \<noteq> Exhausted"
  using DecodeFrom_total [of pf data]
  by (auto simp: Decode_def andThen_cases)

lemma bindLoop_total: "bindLoop es i req \<noteq> Exhausted"
  by (induction es i req rule: bindLoop.induct)
     (auto simp: andThen_cases FieldSet_def split: val.splits if_splits)

lemma UnmarshalFrom_total: "UnmarshalFrom pf r val \<noteq> Exhausted"
  using DecodeFrom_total [of pf r] bindLoop_total
  by (auto simp: UnmarshalFrom_def andThen_cases split: target.splits val.splits if_splits)

lemma Unmarshal_total: "Unmarshal pf data val \<noteq> Exhausted"
  using UnmarshalFrom_total [of pf data val]
  by (auto simp: Unmarshal_def andThen_cases)

lemma UnmarshalRequest_total: "UnmarshalRequest pf r \<noteq> Exhausted"
  using read4_bounded(1) [of r] UnmarshalFrom_total
  by (auto simp: UnmarshalRequest_def andThen_cases split: target.splits)

lemma writeTag_total:
  "writeTag sp w v \<noteq> Exhausted"
  "writeKind sp w v \<noteq> Exhausted"
  "writeSmallTuple sp w xs \<noteq> Exhausted"
  "writeList sp w xs \<noteq> Exhausted"
  "writeElems sp w xs \<noteq> Exhausted"
proof (induction sp w v and sp w v and sp w xs and sp w xs and sp w xs
       rule: writeTag_writeKind_writeSmallTuple_writeList_writeElems.induct)
  case (4 sprintf w f)
  show ?case by (simp add: writeFloat_def Let_def)
next
  case (19 sprintf w l)
  then show ?case by (simp add: Let_def split: outcome.splits prod.splits)
next
  case (21 sprintf w x xs)
  then show ?case by (auto split: outcome.splits prod.splits option.splits)
qed (simp_all add: Let_def split: option.splits)

lemma Encode_total: "Encode sp v \<noteq> Exhausted"
  by (simp add: Encode_def EncodeTo_def writeTag_total del: writeTag.simps)

lemma MarshalResponse_total: "MarshalResponse sp w v \<noteq> Exhausted"
  using Encode_total [of sp v]
  by (auto simp: MarshalResponse_def split: outcome.splits)


end
